theory Spec2Isabelle
  imports Complex_Main "HOL-Library.Sublist"
begin

section \<open>JavaScript strings and numbers\<close>

text \<open>
  A JavaScript string is a sequence of UTF-16 code units. The model uses \<^typ>\<open>string\<close>
  and reads a \<^typ>\<open>char\<close> as a code unit in the range U+0000 .. U+00FF, so that
  \<open>length\<close> is the source's \<open>.length\<close>. A JavaScript \<open>number\<close> that holds a
  count, an index or a size is an \<^typ>\<open>int\<close> (fractions, infinities and \<open>NaN\<close> as
  arguments are outside the model). A quotient of two such numbers is a \<^typ>\<open>rat\<close>:
  the quotients that occur are compared with each other and with \<open>0.1\<close>, and quotients
  of integers of this size compare as their doubles do.
\<close>

definition is_space :: "char \<Rightarrow> bool" where
  \<comment> \<open>the class \<open>\s\<close> (and the characters \<open>trim\<close> strips): TAB, LF, VT, FF, CR, SP, NBSP\<close>
  "is_space c \<longleftrightarrow> c \<in> set [CHR 0x09, CHR 0x0A, CHR 0x0B, CHR 0x0C, CHR 0x0D, CHR 0x20, CHR 0xA0]"

definition is_terminator :: "char \<Rightarrow> bool" where
  \<comment> \<open>the class \<open>[.!?]\<close>\<close>
  "is_terminator c \<longleftrightarrow> c \<in> set ''.!?''"

definition is_word_char :: "char \<Rightarrow> bool" where
  \<comment> \<open>the class \<open>\w\<close>, that is \<open>[A-Za-z0-9_]\<close>\<close>
  "is_word_char c \<longleftrightarrow>
     (let n = (of_char c :: int)
      in (48 \<le> n \<and> n \<le> 57) \<or> (65 \<le> n \<and> n \<le> 90) \<or> (97 \<le> n \<and> n \<le> 122) \<or> n = 95)"

definition lower_char :: "char \<Rightarrow> char" where
  \<comment> \<open>\<open>toLowerCase\<close> on one code unit below U+0100: A-Z and the Latin-1 capitals\<close>
  "lower_char c =
     (let n = (of_char c :: int)
      in if (65 \<le> n \<and> n \<le> 90) \<or> (192 \<le> n \<and> n \<le> 222 \<and> n \<noteq> 215)
         then char_of (n + 32) else c)"

definition toLowerCase :: "string \<Rightarrow> string" where
  "toLowerCase s = map lower_char s"

definition trim :: "string \<Rightarrow> string" where
  "trim s = rev (dropWhile is_space (rev (dropWhile is_space s)))"

definition includes_str :: "string \<Rightarrow> string \<Rightarrow> bool" where
  \<comment> \<open>\<open>s.includes(t)\<close>: \<open>t\<close> occurs in \<open>s\<close> as a contiguous substring\<close>
  "includes_str s t \<longleftrightarrow> sublist t s"

text \<open>
  \<open>s.split(/\s+/)\<close>: the pieces between the maximal runs of whitespace. A run at
  the start or the end of \<open>s\<close> leaves an empty first or last piece, and the empty
  string gives one empty piece.
\<close>

function split_ws_from :: "string \<Rightarrow> string \<Rightarrow> string list" where
  "split_ws_from cur [] = [cur]"
| "split_ws_from cur (c # cs) =
     (if is_space c then cur # split_ws_from [] (dropWhile is_space cs)
      else split_ws_from (cur @ [c]) cs)"
  by pat_completeness auto
termination
  by (relation "measure (\<lambda>(cur, s). length s)")
     (auto simp: less_Suc_eq_le length_dropWhile_le)

definition split_ws :: "string \<Rightarrow> string list" where
  "split_ws s = split_ws_from [] s"

text \<open>
  \<open>s.split(/(?<=[.!?])\s+/)\<close>: a separator is a maximal run of whitespace whose
  preceding character is a sentence terminator. The preceding character is the last
  one of the piece being read: a piece that is still empty starts the string or
  follows a separator, which ends in whitespace.
\<close>

function split_sentences_from :: "string \<Rightarrow> string \<Rightarrow> string list" where
  "split_sentences_from cur [] = [cur]"
| "split_sentences_from cur (c # cs) =
     (if is_space c \<and> cur \<noteq> [] \<and> is_terminator (last cur)
      then cur # split_sentences_from [] (dropWhile is_space cs)
      else split_sentences_from (cur @ [c]) cs)"
  by pat_completeness auto
termination
  by (relation "measure (\<lambda>(cur, s). length s)")
     (auto simp: less_Suc_eq_le length_dropWhile_le)

definition split_sentences :: "string \<Rightarrow> string list" where
  "split_sentences s = split_sentences_from [] s"

text \<open>Decimal rendering of a number inside a template literal.\<close>

function show_nat :: "nat \<Rightarrow> string" where
  "show_nat n =
     (if n < 10 then [char_of (48 + n)] else show_nat (n div 10) @ [char_of (48 + n mod 10)])"
  by pat_completeness auto
termination
  by (relation "measure (\<lambda>n. n)") auto

declare show_nat.simps [simp del]

definition show_int :: "int \<Rightarrow> string" where
  "show_int i = (if i < 0 then CHR ''-'' # show_nat (nat (- i)) else show_nat (nat i))"

definition slice0 :: "'a list \<Rightarrow> int \<Rightarrow> 'a list" where
  \<comment> \<open>\<open>xs.slice(0, n)\<close>: a negative end counts from the end of the array\<close>
  "slice0 xs n = (if 0 \<le> n then take (nat n) xs else take (length xs - nat (- n)) xs)"

section \<open>Token estimate\<close>

record token_range =
  range_min :: int
  range_max :: int

record TokenEstimate =
  approximate :: int
  token_range :: token_range

definition estimateTokens :: "string \<Rightarrow> TokenEstimate" where
  "estimateTokens text =
     (let charCount = length text;
          approximateTokens = \<lceil>(of_nat charCount :: rat) / 4\<rceil>;
          minTokens = \<lceil>(of_nat charCount :: rat) / 5\<rceil>;
          maxTokens = \<lceil>(of_nat charCount :: rat) / 3\<rceil>
      in \<lparr>approximate = approximateTokens,
          token_range = \<lparr>range_min = minTokens, range_max = maxTokens\<rparr>\<rparr>)"

section \<open>Chunker\<close>

record chunk_metadata =
  title :: string
  section_name :: "string option"
  tokens :: int
  startChar :: int
  endChar :: int

record ChunkedContent =
  chunk_id :: string
  articleId :: string
  chunkIndex :: int
  content :: string
  metadata :: chunk_metadata

text \<open>
  The optional \<open>embedding\<close> of a chunk is never set by the code below and is left out;
  the optional \<open>section\<close> of the metadata (the field \<open>section_name\<close>) is never set
  either and stays \<open>None\<close>.
\<close>

record chunk_state =
  chunks :: "ChunkedContent list"
  currentChunk :: string
  cur_startChar :: int
  cur_chunkIndex :: int

definition make_chunk :: "string \<Rightarrow> string \<Rightarrow> chunk_state \<Rightarrow> ChunkedContent" where
  \<comment> \<open>the object literal pushed at both places of \<open>chunkContent\<close>\<close>
  "make_chunk artId ttl st =
     \<lparr>chunk_id = artId @ ''-chunk-'' @ show_int (cur_chunkIndex st),
      articleId = artId,
      chunkIndex = cur_chunkIndex st,
      content = currentChunk st,
      metadata = \<lparr>title = ttl, section_name = None,
                  tokens = approximate (estimateTokens (currentChunk st)),
                  startChar = cur_startChar st,
                  endChar = cur_startChar st + int (length (currentChunk st))\<rparr>\<rparr>"

definition chunk_step ::
  "int \<Rightarrow> int \<Rightarrow> string \<Rightarrow> string \<Rightarrow> chunk_state \<Rightarrow> string \<Rightarrow> chunk_state" where
  \<comment> \<open>one pass through the body of the \<open>for\<close> loop\<close>
  "chunk_step chunkSize overlapSize artId ttl st sentence =
     (let potentialChunk =
            currentChunk st @ (if currentChunk st \<noteq> [] then '' '' else []) @ sentence
      in if int (length potentialChunk) > chunkSize \<and> currentChunk st \<noteq> []
         then
           (let overlapStart = max 0 (int (length (currentChunk st)) - overlapSize)
            in \<lparr>chunks = chunks st @ [make_chunk artId ttl st],
                currentChunk = drop (nat overlapStart) (currentChunk st) @ '' '' @ sentence,
                cur_startChar = cur_startChar st + overlapStart,
                cur_chunkIndex = cur_chunkIndex st + 1\<rparr>)
         else st\<lparr>currentChunk := potentialChunk\<rparr>)"

fun chunk_loop ::
  "int \<Rightarrow> int \<Rightarrow> string \<Rightarrow> string \<Rightarrow> chunk_state \<Rightarrow> string list \<Rightarrow> chunk_state" where
  "chunk_loop chunkSize overlapSize artId ttl st [] = st"
| "chunk_loop chunkSize overlapSize artId ttl st (sentence # rest) =
     chunk_loop chunkSize overlapSize artId ttl
       (chunk_step chunkSize overlapSize artId ttl st sentence) rest"

definition chunk_final :: "string \<Rightarrow> string \<Rightarrow> chunk_state \<Rightarrow> ChunkedContent list" where
  \<comment> \<open>the remaining buffer is pushed unless it is blank\<close>
  "chunk_final artId ttl st =
     (if trim (currentChunk st) \<noteq> [] then chunks st @ [make_chunk artId ttl st]
      else chunks st)"

definition chunkContent ::
  "string \<Rightarrow> int \<Rightarrow> int \<Rightarrow> string \<Rightarrow> string \<Rightarrow> ChunkedContent list" where
  "chunkContent text chunkSize overlapSize artId ttl =
     (let sentences = split_sentences text;
          init = \<lparr>chunks = [], currentChunk = [], cur_startChar = 0, cur_chunkIndex = 0\<rparr>
      in chunk_final artId ttl (chunk_loop chunkSize overlapSize artId ttl init sentences))"

subsection \<open>Loop invariants of the chunker\<close>

definition chunk_inv :: "chunk_state \<Rightarrow> bool" where
  \<comment> \<open>the chunks pushed so far are numbered from 0, their offsets are sorted and do not
      pass the offsets of the buffer\<close>
  "chunk_inv st \<longleftrightarrow>
     map chunkIndex (chunks st) = map int [0..<length (chunks st)]
     \<and> cur_chunkIndex st = int (length (chunks st))
     \<and> sorted (map (\<lambda>c. startChar (metadata c)) (chunks st))
     \<and> sorted (map (\<lambda>c. endChar (metadata c)) (chunks st))
     \<and> (\<forall>c \<in> set (chunks st). startChar (metadata c) \<le> cur_startChar st)
     \<and> (\<forall>c \<in> set (chunks st).
           endChar (metadata c) \<le> cur_startChar st + int (length (currentChunk st)))"

definition pending :: "chunk_state \<Rightarrow> nat" where
  \<comment> \<open>the chunks pushed so far, plus one for a buffer that is not empty\<close>
  "pending st = length (chunks st) + (if currentChunk st \<noteq> [] then 1 else 0)"

subsection \<open>Reassembling the content from its chunks\<close>

text \<open>
  \<open>join_space\<close> is \<open>Array.prototype.join(' ')\<close>. \<open>reconstruct\<close> follows the words of
  the specification: the windows of consecutive chunks are concatenated, and of each
  chunk only the characters beyond those already covered are appended. \<open>glue\<close> is the
  text that the loop of \<open>chunkContent\<close> has assembled so far: it puts a space before a
  sentence exactly when the buffer is not empty.
\<close>

fun join_space :: "string list \<Rightarrow> string" where
  "join_space [] = []"
| "join_space [s] = s"
| "join_space (s # t # ss) = s @ '' '' @ join_space (t # ss)"

fun reconstruct_from :: "string \<Rightarrow> ChunkedContent list \<Rightarrow> string" where
  "reconstruct_from acc [] = acc"
| "reconstruct_from acc (c # cs) =
     reconstruct_from
       (acc @ drop (nat (int (length acc) - startChar (metadata c))) (content c)) cs"

definition reconstruct :: "ChunkedContent list \<Rightarrow> string" where
  "reconstruct cs = reconstruct_from [] cs"

fun glue :: "string \<Rightarrow> bool \<Rightarrow> string list \<Rightarrow> string" where
  "glue V ne [] = V"
| "glue V ne (s # ss) = glue (V @ (if ne then '' '' else []) @ s) (ne \<or> s \<noteq> []) ss"

definition window_ok :: "string \<Rightarrow> ChunkedContent \<Rightarrow> bool" where
  \<comment> \<open>the content of the chunk is the text \<open>V\<close> from \<open>startChar\<close> to \<open>endChar\<close>\<close>
  "window_ok V c \<longleftrightarrow>
     0 \<le> startChar (metadata c)
     \<and> endChar (metadata c) = startChar (metadata c) + int (length (content c))
     \<and> prefix (content c) (drop (nat (startChar (metadata c))) V)"

definition cover_inv :: "string \<Rightarrow> chunk_state \<Rightarrow> bool" where
  \<comment> \<open>the buffer is the text \<open>V\<close> assembled so far from \<open>startChar\<close> on, and the chunks
      pushed so far are windows of \<open>V\<close> that leave no gap before the buffer\<close>
  "cover_inv V st \<longleftrightarrow>
     0 \<le> cur_startChar st
     \<and> nat (cur_startChar st) \<le> length V
     \<and> currentChunk st = drop (nat (cur_startChar st)) V
     \<and> prefix (reconstruct_from [] (chunks st)) V
     \<and> nat (cur_startChar st) \<le> length (reconstruct_from [] (chunks st))
     \<and> (\<forall>c \<in> set (chunks st). window_ok V c)"

section \<open>Regular expressions with the global flag\<close>

text \<open>
  A matcher tells, for the character before the current position (if any) and the
  text from the current position on, how many characters a match starting here
  takes. \<open>regex_scan\<close> is the iteration behind \<open>match\<close>, \<open>matchAll\<close> and \<open>exec\<close> with the
  \<open>g\<close> flag: the search resumes after a match, one character further after an empty
  match, and at the next position where nothing matches.
\<close>

type_synonym matcher = "char option \<Rightarrow> string \<Rightarrow> nat option"

function regex_scan :: "matcher \<Rightarrow> char option \<Rightarrow> string \<Rightarrow> string list" where
  "regex_scan m prev s =
     (case m prev s of
        Some n \<Rightarrow>
          take n s #
            (if s = [] then []
             else regex_scan m (Some (last (take (max 1 n) s))) (drop (max 1 n) s))
      | None \<Rightarrow> (case s of [] \<Rightarrow> [] | c # cs \<Rightarrow> regex_scan m (Some c) cs))"
  by pat_completeness auto
termination
  by (relation "measure (\<lambda>(m, prev, s). length s)") auto

declare regex_scan.simps [simp del]

definition word_boundary :: "char option \<Rightarrow> string \<Rightarrow> bool" where
  \<comment> \<open>the assertion \<open>\b\<close> between the previous character and the rest of the text\<close>
  "word_boundary prev s \<longleftrightarrow>
     (case prev of None \<Rightarrow> False | Some c \<Rightarrow> is_word_char c)
       \<noteq> (case s of [] \<Rightarrow> False | c # _ \<Rightarrow> is_word_char c)"

definition is_upper :: "char \<Rightarrow> bool" where
  \<comment> \<open>the class \<open>[A-Z]\<close>\<close>
  "is_upper c \<longleftrightarrow> (let n = (of_char c :: int) in 65 \<le> n \<and> n \<le> 90)"

definition is_lower :: "char \<Rightarrow> bool" where
  \<comment> \<open>the class \<open>[a-z]\<close>\<close>
  "is_lower c \<longleftrightarrow> (let n = (of_char c :: int) in 97 \<le> n \<and> n \<le> 122)"

definition is_letter :: "char \<Rightarrow> bool" where
  \<comment> \<open>the class \<open>[a-z]\<close> under the \<open>i\<close> flag\<close>
  "is_letter c \<longleftrightarrow> is_upper c \<or> is_lower c"

text \<open>
  \<open>s.replace(/\s+/g, '-')\<close>: every maximal run of whitespace becomes one hyphen.
\<close>

function replace_ws_dash :: "string \<Rightarrow> string" where
  "replace_ws_dash [] = []"
| "replace_ws_dash (c # cs) =
     (if is_space c then CHR ''-'' # replace_ws_dash (dropWhile is_space cs)
      else c # replace_ws_dash cs)"
  by pat_completeness auto
termination
  by (relation "measure length") (auto simp: less_Suc_eq_le length_dropWhile_le)

text \<open>
  \<open>s.match(/[^.!?]+[.!?]+/g) || []\<close>: a match is a maximal run of characters other
  than \<open>.!?\<close> followed by a maximal run of \<open>.!?\<close>. Terminators before the first such
  run are skipped, and a last run that no terminator follows is not matched.
\<close>

function match_sentences :: "string \<Rightarrow> string list" where
  "match_sentences s =
     (let s1 = dropWhile is_terminator s;
          body = takeWhile (\<lambda>c. \<not> is_terminator c) s1;
          rest = dropWhile (\<lambda>c. \<not> is_terminator c) s1
      in if rest = [] then []
         else (body @ takeWhile is_terminator rest)
                # match_sentences (dropWhile is_terminator rest))"
  by pat_completeness auto
termination
proof (relation "measure length", goal_cases)
  case 1
  show ?case by simp
next
  case (2 s s1 body rest)
  then have "rest \<noteq> []" by simp
  then have "is_terminator (hd rest)"
    using 2(1,3) by (metis hd_dropWhile)
  then have "dropWhile is_terminator rest = dropWhile is_terminator (tl rest)"
    using \<open>rest \<noteq> []\<close> by (cases rest) simp_all
  then have "length (dropWhile is_terminator rest) \<le> length (tl rest)"
    by (metis length_dropWhile_le)
  moreover have "length (tl rest) < length rest"
    using \<open>rest \<noteq> []\<close> by (cases rest) simp_all
  moreover have "length rest \<le> length s1"
    using 2(3) by (simp add: length_dropWhile_le)
  moreover have "length s1 \<le> length s"
    using 2(1) by (simp add: length_dropWhile_le)
  ultimately show ?case by simp
qed

declare match_sentences.simps [simp del]

section \<open>Atomic answers\<close>

record AtomicAnswer =
  answer_id :: string
  heading :: string
  answer :: string
  relatedTopics :: "string list"
  confidence :: rat

definition proper_noun_matcher :: matcher where
  \<comment> \<open>\<open>/\b([A-Z][a-z]+ [A-Z][a-z]+)\b/\<close>: each run of \<open>[a-z]\<close> is the maximal one, a
      shorter run is followed by a lower-case letter and fails\<close>
  "proper_noun_matcher prev s =
     (case s of
        [] \<Rightarrow> None
      | u1 # r1 \<Rightarrow>
          (let l1 = takeWhile is_lower r1; r2 = dropWhile is_lower r1
           in case r2 of
                sp # u2 # r3 \<Rightarrow>
                  (let l2 = takeWhile is_lower r3; r4 = dropWhile is_lower r3
                   in if word_boundary prev s \<and> is_upper u1 \<and> l1 \<noteq> [] \<and> sp = CHR '' ''
                         \<and> is_upper u2 \<and> l2 \<noteq> [] \<and> word_boundary (Some (last l2)) r4
                      then Some (length l1 + length l2 + 3) else None)
              | _ \<Rightarrow> None))"

definition the_noun_matcher :: matcher where
  \<comment> \<open>\<open>/\b(the [a-z]+)\b/\<close> under the \<open>i\<close> flag\<close>
  "the_noun_matcher prev s =
     (case s of
        t # h # e # sp # r \<Rightarrow>
          (let l = takeWhile is_letter r; r' = dropWhile is_letter r
           in if word_boundary prev s \<and> lower_char t = CHR ''t'' \<and> lower_char h = CHR ''h''
                 \<and> lower_char e = CHR ''e'' \<and> sp = CHR '' '' \<and> l \<noteq> []
                 \<and> word_boundary (Some (last l)) r'
              then Some (length l + 4) else None)
      | _ \<Rightarrow> None)"

definition set_add :: "'a list \<Rightarrow> 'a \<Rightarrow> 'a list" where
  \<comment> \<open>\<open>Set.prototype.add\<close> on a set kept in insertion order\<close>
  "set_add xs x = (if x \<in> set xs then xs else xs @ [x])"

definition extractEntities :: "string \<Rightarrow> string list" where
  "extractEntities text =
     foldl (\<lambda>entities pattern.
              foldl (\<lambda>entities m. set_add entities (toLowerCase m)) entities
                (regex_scan pattern None text))
       [] [proper_noun_matcher, the_noun_matcher]"

record answer_state =
  answers :: "AtomicAnswer list"
  currentAnswer :: string
  wordCount :: int

definition make_answer :: "string \<Rightarrow> answer_state \<Rightarrow> AtomicAnswer" where
  \<comment> \<open>the object literal pushed at both places of \<open>extractAtomicAnswers\<close>\<close>
  "make_answer hdg st =
     \<lparr>answer_id = replace_ws_dash (toLowerCase hdg) @ ''-'' @ show_nat (length (answers st)),
      heading = hdg,
      answer = trim (currentAnswer st),
      relatedTopics = extractEntities (currentAnswer st),
      confidence = 95 / 100\<rparr>"

definition answer_step :: "string \<Rightarrow> answer_state \<Rightarrow> string \<Rightarrow> answer_state" where
  \<comment> \<open>one pass through the body of the \<open>for\<close> loop\<close>
  "answer_step hdg st sentence =
     (let words = int (length (split_ws (trim sentence)));
          st1 = (if wordCount st + words > 60 \<and> trim (currentAnswer st) \<noteq> []
                 then \<lparr>answers = answers st @ [make_answer hdg st],
                       currentAnswer = [], wordCount = 0\<rparr>
                 else st)
      in \<lparr>answers = answers st1,
          currentAnswer = currentAnswer st1 @ '' '' @ trim sentence,
          wordCount = wordCount st1 + words\<rparr>)"

definition extractAtomicAnswers :: "string \<Rightarrow> string \<Rightarrow> AtomicAnswer list" where
  "extractAtomicAnswers text hdg =
     (let sentences = match_sentences text;
          st = foldl (answer_step hdg)
                 \<lparr>answers = [], currentAnswer = [], wordCount = 0\<rparr> sentences
      in if trim (currentAnswer st) \<noteq> [] \<and> 40 \<le> wordCount st \<and> wordCount st \<le> 60
         then answers st @ [make_answer hdg st]
         else answers st)"

definition word_count :: "string \<Rightarrow> nat" where
  \<comment> \<open>the number of words of an answer, counted as the code counts the words of a
      sentence: \<open>s.trim().split(/\s+/).length\<close>\<close>
  "word_count s = length (split_ws (trim s))"

section \<open>Arrays, objects and maps\<close>

text \<open>
  \<open>Array.prototype.sort\<close> with a comparison function is stable: \<open>x\<close> is moved behind \<open>y\<close>
  only when the comparison of \<open>x\<close> with \<open>y\<close> is positive. The comparison function
  returns \<open>None\<close> for \<open>NaN\<close>, which sorting treats as zero. (Where a comparison function
  is not consistent, ECMAScript leaves the order to the implementation; the model
  then gives the order of this insertion.)
\<close>

fun insert_by :: "('a \<Rightarrow> 'a \<Rightarrow> rat option) \<Rightarrow> 'a \<Rightarrow> 'a list \<Rightarrow> 'a list" where
  "insert_by cmp x [] = [x]"
| "insert_by cmp x (y # ys) =
     (case cmp x y of
        None \<Rightarrow> x # y # ys
      | Some v \<Rightarrow> if 0 < v then y # insert_by cmp x ys else x # y # ys)"

definition js_sort :: "('a \<Rightarrow> 'a \<Rightarrow> rat option) \<Rightarrow> 'a list \<Rightarrow> 'a list" where
  "js_sort cmp xs = foldr (insert_by cmp) xs []"

text \<open>
  A \<open>Map\<close> (and the own properties of an object) is an association list in insertion
  order: \<open>set\<close> overwrites the value of a key in place or appends a new key, \<open>get\<close> is
  \<^const>\<open>map_of\<close>.
\<close>

fun map_set :: "'k \<Rightarrow> 'v \<Rightarrow> ('k \<times> 'v) list \<Rightarrow> ('k \<times> 'v) list" where
  "map_set k v [] = [(k, v)]"
| "map_set k v ((k', v') # kvs) =
     (if k = k' then (k, v) # kvs else (k', v') # map_set k v kvs)"

section \<open>Keywords and similarity\<close>

text \<open>
  The values of the \<open>frequency\<close> object. Its prototype is \<open>Object.prototype\<close>, so the
  first read of \<open>frequency['constructor']\<close> is a function and \<open>+ 1\<close> makes a string of
  it: such a value is \<open>Garbled\<close>, and it is \<open>NaN\<close> in a subtraction. An assignment to
  \<open>frequency['__proto__']\<close> of that string creates no property. No other inherited
  property has a lower-case name.
\<close>

datatype freq = Count nat | Garbled

definition strip_punctuation :: "string \<Rightarrow> string" where
  \<comment> \<open>\<open>s.replace(/[^\w\s]/g, '')\<close>\<close>
  "strip_punctuation s = filter (\<lambda>c. is_word_char c \<or> is_space c) s"

definition freq_bump :: "(string \<times> freq) list \<Rightarrow> string \<Rightarrow> (string \<times> freq) list" where
  \<comment> \<open>\<open>frequency[word] = (frequency[word] || 0) + 1\<close>\<close>
  "freq_bump frequency word =
     (if word = ''__proto__'' then frequency
      else map_set word
             (case map_of frequency word of
                None \<Rightarrow> if word = ''constructor'' then Garbled else Count 1
              | Some (Count n) \<Rightarrow> Count (n + 1)
              | Some Garbled \<Rightarrow> Garbled)
             frequency)"

definition digits_value :: "string \<Rightarrow> int" where
  "digits_value s = foldl (\<lambda>n c. 10 * n + (of_char c - 48)) 0 s"

definition is_array_index :: "string \<Rightarrow> bool" where
  \<comment> \<open>a canonical decimal numeral below \<open>2^32 - 1\<close>\<close>
  "is_array_index s \<longleftrightarrow>
     s \<noteq> [] \<and> list_all (\<lambda>c. 48 \<le> (of_char c :: int) \<and> (of_char c :: int) \<le> 57) s
     \<and> (s = ''0'' \<or> hd s \<noteq> CHR ''0'') \<and> digits_value s < 4294967295"

definition object_entries :: "(string \<times> 'v) list \<Rightarrow> (string \<times> 'v) list" where
  \<comment> \<open>\<open>Object.entries\<close>: array-index keys in ascending order, then the other keys in
      insertion order\<close>
  "object_entries props =
     sort_key (\<lambda>kv. digits_value (fst kv)) (filter (\<lambda>kv. is_array_index (fst kv)) props)
       @ filter (\<lambda>kv. \<not> is_array_index (fst kv)) props"

definition freq_number :: "freq \<Rightarrow> rat option" where
  "freq_number v = (case v of Count n \<Rightarrow> Some (of_nat n) | Garbled \<Rightarrow> None)"

definition minus_number :: "rat option \<Rightarrow> rat option \<Rightarrow> rat option" where
  \<comment> \<open>subtraction of two numbers, \<open>None\<close> being \<open>NaN\<close>\<close>
  "minus_number a b = (case (a, b) of (Some x, Some y) \<Rightarrow> Some (x - y) | _ \<Rightarrow> None)"

definition extractKeywords :: "string \<Rightarrow> int \<Rightarrow> string list" where
  "extractKeywords text maxKeywords =
     (let words = filter (\<lambda>word. length word > 4)
                    (split_ws (strip_punctuation (toLowerCase text)));
          frequency = foldl freq_bump [] words
      in map fst
           (slice0
              (js_sort (\<lambda>a b. minus_number (freq_number (snd b)) (freq_number (snd a)))
                 (object_entries frequency))
              maxKeywords))"

definition new_Set :: "'a list \<Rightarrow> 'a list" where
  \<comment> \<open>\<open>new Set(xs)\<close>, kept in insertion order\<close>
  "new_Set xs = foldl set_add [] xs"

definition calculateSimilarity :: "string \<Rightarrow> string \<Rightarrow> rat" where
  "calculateSimilarity content1 content2 =
     (let keywords1 = new_Set (extractKeywords content1 10);
          keywords2 = new_Set (extractKeywords content2 10);
          intersection = length (filter (\<lambda>keyword. keyword \<in> set keywords2) keywords1);
          union = length keywords1 + length keywords2 - intersection
      in if union = 0 then 0 else of_nat intersection / of_nat union)"

section \<open>Knowledge graph\<close>

record article =
  art_id :: string
  art_title :: string
  art_slug :: string
  art_description :: "string option"
  art_content :: string

record RelatedArticle =
  rel_id :: string
  rel_title :: string
  rel_slug :: string
  rel_description :: "string option"
  relevanceScore :: rat

definition findRelatedArticles :: "article \<Rightarrow> article list \<Rightarrow> int \<Rightarrow> RelatedArticle list" where
  "findRelatedArticles currentArticle allArticles limit =
     map (\<lambda>(a, score). \<lparr>rel_id = art_id a, rel_title = art_title a, rel_slug = art_slug a,
                         rel_description = art_description a, relevanceScore = score\<rparr>)
       (slice0
          (js_sort (\<lambda>a b. Some (snd b - snd a))
             (filter (\<lambda>(a, score). score > 1 / 10)
                (map (\<lambda>a. (a, calculateSimilarity (art_content currentArticle) (art_content a)))
                   (filter (\<lambda>a. art_id a \<noteq> art_id currentArticle) allArticles))))
          limit)"

definition reference_matcher :: matcher where
  \<comment> \<open>\<open>/\[\[([^\]]+)\]\]/\<close>: the run of \<open>[^\]]\<close> is the maximal one, a shorter run is
      followed by a character other than \<open>]\<close> and fails\<close>
  "reference_matcher prev s =
     (case s of
        b1 # b2 # r \<Rightarrow>
          (let body = takeWhile (\<lambda>c. c \<noteq> CHR '']'') r;
               after = dropWhile (\<lambda>c. c \<noteq> CHR '']'') r
           in if b1 = CHR ''['' \<and> b2 = CHR ''['' \<and> body \<noteq> [] \<and> take 2 after = '']]''
              then Some (length body + 4) else None)
      | _ \<Rightarrow> None)"

definition extractInternalReferences :: "string \<Rightarrow> string list" where
  "extractInternalReferences text =
     foldl (\<lambda>references m.
              (let reference = trim (toLowerCase (take (length m - 4) (drop 2 m)))
               in if reference \<in> set references then references
                  else references @ [reference]))
       [] (regex_scan reference_matcher None text)"

datatype connection_type = References | ReferencedBy | Related

record connection =
  nodeId :: string
  conn_type :: connection_type

record KnowledgeGraphNode =
  node_id :: string
  node_title :: string
  node_slug :: string
  connections :: "connection list"

type_synonym knowledge_graph = "(string \<times> KnowledgeGraphNode) list"

definition add_reference :: "article list \<Rightarrow> connection list \<Rightarrow> string \<Rightarrow> connection list" where
  \<comment> \<open>the body of \<open>references.forEach\<close>\<close>
  "add_reference articles conns ref =
     (case find (\<lambda>a. toLowerCase (art_title a) = ref) articles of
        None \<Rightarrow> conns
      | Some referencedArticle \<Rightarrow>
          (case find (\<lambda>c. nodeId c = art_id referencedArticle) conns of
             Some c \<Rightarrow> conns
           | None \<Rightarrow> conns @ [\<lparr>nodeId = art_id referencedArticle, conn_type = References\<rparr>]))"

definition connect_article ::
  "article list \<Rightarrow> int \<Rightarrow> knowledge_graph \<Rightarrow> article \<Rightarrow> knowledge_graph" where
  \<comment> \<open>the body of the second \<open>articles.forEach\<close>; the node is the object stored in the
      map under the article's id, which the initialisation has set\<close>
  "connect_article articles maxConnectionsPerArticle graph a =
     (case map_of graph (art_id a) of
        None \<Rightarrow> graph
      | Some node \<Rightarrow>
          (let references = extractInternalReferences (art_content a);
               relatedArticles = findRelatedArticles a articles maxConnectionsPerArticle;
               conns1 = connections node
                          @ map (\<lambda>related. \<lparr>nodeId = rel_id related, conn_type = Related\<rparr>)
                              relatedArticles;
               conns2 = foldl (add_reference articles) conns1 references
           in map_set (art_id a) (node\<lparr>connections := conns2\<rparr>) graph))"

definition buildKnowledgeGraph :: "article list \<Rightarrow> int \<Rightarrow> knowledge_graph" where
  "buildKnowledgeGraph articles maxConnectionsPerArticle =
     (let graph0 = foldl (\<lambda>graph a.
                            map_set (art_id a)
                              \<lparr>node_id = art_id a, node_title = art_title a,
                               node_slug = art_slug a, connections = []\<rparr> graph)
                     [] articles
      in foldl (connect_article articles maxConnectionsPerArticle) graph0 articles)"

definition keyword_set :: "string \<Rightarrow> string set" where
  \<comment> \<open>the set of the top ten keywords of a content\<close>
  "keyword_set text = set (extractKeywords text 10)"

text \<open>No connection of type \<open>related\<close> leads from a key of the graph to itself.\<close>

definition related_ok :: "knowledge_graph \<Rightarrow> bool" where
  "related_ok graph \<longleftrightarrow>
     (\<forall>kn \<in> set graph. \<forall>c \<in> set (connections (snd kn)).
        conn_type c = Related \<longrightarrow> nodeId c \<noteq> fst kn)"

section \<open>Relevance score and ranking\<close>

text \<open>
  \<open>new RegExp(pattern, 'g')\<close> either throws a \<open>SyntaxError\<close> or gives a regular
  expression, which is modelled by what the code does with it: the list
  \<open>content.match(regex) || []\<close> of its matches in a text. The code builds the pattern
  \<open>\b\<close>\<open>term\<close>\<open>\b\<close> from a term of the query, and the model decides two classes of terms:
  \<^item> a term without syntax characters is matched literally between two word boundaries;
  \<^item> a term without \<open>[\<close> and without backslash has neither character classes nor
    escapes, so each of its parentheses opens or closes a group, and the pattern is
    rejected when they are not balanced.
  What the engine does with any other pattern is the parameter \<open>engine\<close>.
\<close>

datatype error = SyntaxError

type_synonym regexp = "string \<Rightarrow> string list"

type_synonym regexp_engine = "string \<Rightarrow> error + regexp"

definition is_syntax_char :: "char \<Rightarrow> bool" where
  \<comment> \<open>the syntax characters of a pattern: \<open>^ $ \ . * + ? ( ) [ ] { } |\<close>\<close>
  "is_syntax_char c \<longleftrightarrow> c \<in> set ''^$.*+?()[]{}|'' \<or> c = CHR 0x5C"

definition literal_matcher :: "string \<Rightarrow> matcher" where
  \<comment> \<open>\<open>\b\<close>, the characters of \<open>lit\<close>, \<open>\b\<close>\<close>
  "literal_matcher lit prev s =
     (if word_boundary prev s \<and> prefix lit s
         \<and> word_boundary (if lit = [] then prev else Some (last lit)) (drop (length lit) s)
      then Some (length lit) else None)"

fun balanced :: "nat \<Rightarrow> string \<Rightarrow> bool" where
  "balanced depth [] = (depth = 0)"
| "balanced depth (c # cs) =
     (if c = CHR ''('' then balanced (Suc depth) cs
      else if c = CHR '')'' then (case depth of 0 \<Rightarrow> False | Suc d \<Rightarrow> balanced d cs)
      else balanced depth cs)"

definition term_regexp :: "regexp_engine \<Rightarrow> string \<Rightarrow> error + regexp" where
  \<comment> \<open>\<open>new RegExp(`\\b${term}\\b`, 'g')\<close>\<close>
  "term_regexp engine term =
     (if list_all (\<lambda>c. \<not> is_syntax_char c) term
      then Inr (regex_scan (literal_matcher term) None)
      else if list_all (\<lambda>c. c \<noteq> CHR ''['' \<and> c \<noteq> CHR 0x5C) term \<and> \<not> balanced 0 term
      then Inl SyntaxError
      else engine ([CHR 0x5C, CHR ''b''] @ term @ [CHR 0x5C, CHR ''b'']))"

fun count_matches ::
  "regexp_engine \<Rightarrow> string \<Rightarrow> string \<Rightarrow> int \<Rightarrow> string list \<Rightarrow> error + int" where
  "count_matches engine contentLower text matchCount [] = Inr matchCount"
| "count_matches engine contentLower text matchCount (term # terms) =
     (if includes_str contentLower term
      then (case term_regexp engine term of
              Inl e \<Rightarrow> Inl e
            | Inr regex \<Rightarrow>
                count_matches engine contentLower text
                  (matchCount + int (length (regex text))) terms)
      else count_matches engine contentLower text matchCount terms)"

definition calculateSimilarityScore :: "regexp_engine \<Rightarrow> string \<Rightarrow> string \<Rightarrow> error + rat" where
  "calculateSimilarityScore engine query text =
     (let queryTerms = split_ws (toLowerCase query);
          contentLower = toLowerCase text
      in case count_matches engine contentLower text 0 queryTerms of
           Inl e \<Rightarrow> Inl e
         | Inr matchCount \<Rightarrow>
             Inr (of_int matchCount / of_int (max (int (length queryTerms)) 1)))"

fun score_chunks ::
  "regexp_engine \<Rightarrow> string \<Rightarrow> ChunkedContent list \<Rightarrow> error + (ChunkedContent \<times> rat) list" where
  "score_chunks engine query [] = Inr []"
| "score_chunks engine query (chunk # rest) =
     (case calculateSimilarityScore engine query (content chunk) of
        Inl e \<Rightarrow> Inl e
      | Inr score \<Rightarrow>
          (case score_chunks engine query rest of
             Inl e \<Rightarrow> Inl e
           | Inr scored \<Rightarrow> Inr ((chunk, score) # scored)))"

definition rankChunksForQuery ::
  "regexp_engine \<Rightarrow> ChunkedContent list \<Rightarrow> string \<Rightarrow> int \<Rightarrow> error + ChunkedContent list" where
  "rankChunksForQuery engine chunk_list query topK =
     (case score_chunks engine query chunk_list of
        Inl e \<Rightarrow> Inl e
      | Inr scored \<Rightarrow>
          Inr (map fst (slice0 (js_sort (\<lambda>a b. Some (snd b - snd a)) scored) topK)))"

definition relevance :: "regexp_engine \<Rightarrow> string \<Rightarrow> ChunkedContent \<Rightarrow> rat" where
  \<comment> \<open>the score of a chunk whose scoring returns\<close>
  "relevance engine query chunk =
     (case calculateSimilarityScore engine query (content chunk) of
        Inl e \<Rightarrow> 0
      | Inr score \<Rightarrow> score)"

definition no_engine :: regexp_engine where
  \<comment> \<open>an engine for the examples, whose queries stay within the two decided classes\<close>
  "no_engine pattern = Inl SyntaxError"

section \<open>Recommendations\<close>

text \<open>
  The state of the breadth-first search of \<open>getRecommendations\<close>: the queue, the set
  \<open>visited\<close> and the map \<open>recommendations\<close>, both in insertion order.
\<close>

record bfs_state =
  queue :: "string list"
  visited :: "string list"
  recommendations :: "(string \<times> KnowledgeGraphNode) list"

definition visit :: "knowledge_graph \<Rightarrow> int \<Rightarrow> bfs_state \<Rightarrow> connection \<Rightarrow> bfs_state" where
  \<comment> \<open>the body of \<open>node.connections.forEach\<close>\<close>
  "visit graph limit st c =
     (if nodeId c \<in> set (visited st) then st
      else
        \<lparr>queue = (if int (length (queue st)) < limit * 2 then queue st @ [nodeId c]
                  else queue st),
         visited = visited st @ [nodeId c],
         recommendations =
           (case map_of graph (nodeId c) of
              None \<Rightarrow> recommendations st
            | Some connectedNode \<Rightarrow>
                if map_of (recommendations st) (nodeId c) = None
                then recommendations st @ [(nodeId c, connectedNode)]
                else recommendations st)\<rparr>)"

definition graph_targets :: "knowledge_graph \<Rightarrow> string list" where
  \<comment> \<open>every id that some node of the graph is connected to\<close>
  "graph_targets graph = concat (map (\<lambda>kn. map nodeId (connections (snd kn))) graph)"

definition bfs_measure :: "knowledge_graph \<Rightarrow> bfs_state \<Rightarrow> nat" where
  \<comment> \<open>twice the number of targets not yet visited, plus the length of the queue: a
      newly visited target adds at most one entry to the queue\<close>
  "bfs_measure graph st =
     2 * card (set (graph_targets graph) - set (visited st)) + length (queue st)"

function bfs_loop :: "knowledge_graph \<Rightarrow> int \<Rightarrow> bfs_state \<Rightarrow> bfs_state" where
  "bfs_loop graph limit st =
     (if queue st \<noteq> [] \<and> int (length (recommendations st)) < limit
      then (case map_of graph (hd (queue st)) of
              None \<Rightarrow> bfs_loop graph limit (st\<lparr>queue := tl (queue st)\<rparr>)
            | Some node \<Rightarrow>
                bfs_loop graph limit
                  (foldl (visit graph limit) (st\<lparr>queue := tl (queue st)\<rparr>) (connections node)))
      else st)"
  by pat_completeness auto
termination
proof (relation "measure (\<lambda>(graph, limit, st). bfs_measure graph st)", goal_cases)
  case 1
  show ?case by simp
next
  case (2 graph limit st)
  then have "length (tl (queue st)) < length (queue st)"
    by (cases "queue st") simp_all
  then show ?case by (simp add: bfs_measure_def)
next
  case (3 graph limit st node)
  define U where "U = set (graph_targets graph)"
  have step: "bfs_measure graph (visit graph limit s c) \<le> bfs_measure graph s"
    if "nodeId c \<in> U" for s c
  proof (cases "nodeId c \<in> set (visited s)")
    case True
    then show ?thesis by (simp add: visit_def)
  next
    case False
    with that have mem: "nodeId c \<in> U - set (visited s)" by simp
    have fin: "finite (U - set (visited s))" by (simp add: U_def)
    define n where "n = card (U - set (visited s))"
    define n' where "n' = card (U - set (visited s @ [nodeId c]))"
    have "U - set (visited s @ [nodeId c]) = (U - set (visited s)) - {nodeId c}"
      by auto
    then have c_eq: "n' = n - 1"
      using mem fin by (simp add: n_def n'_def)
    have pos: "0 < n"
      using mem fin by (auto simp: card_gt_0_iff n_def)
    have v_eq: "visited (visit graph limit s c) = visited s @ [nodeId c]"
      and q_le: "length (queue (visit graph limit s c)) \<le> length (queue s) + 1"
      using False by (simp_all add: visit_def)
    have "bfs_measure graph (visit graph limit s c)
        = 2 * n' + length (queue (visit graph limit s c))"
      by (simp only: bfs_measure_def U_def v_eq n'_def)
    also have "\<dots> \<le> 2 * (n - 1) + (length (queue s) + 1)"
      using q_le c_eq by simp
    also have "\<dots> \<le> 2 * n + length (queue s)"
      using pos by simp
    also have "\<dots> = bfs_measure graph s"
      by (simp only: bfs_measure_def U_def n_def)
    finally show ?thesis .
  qed
  have fold: "bfs_measure graph (foldl (visit graph limit) s cs) \<le> bfs_measure graph s"
    if "nodeId ` set cs \<subseteq> U" for s cs
    using that
  proof (induction cs arbitrary: s)
    case Nil
    show ?case by simp
  next
    case (Cons c cs)
    have "bfs_measure graph (foldl (visit graph limit) (visit graph limit s c) cs)
        \<le> bfs_measure graph (visit graph limit s c)"
      using Cons.prems by (intro Cons.IH) simp
    also have "\<dots> \<le> bfs_measure graph s"
      using Cons.prems by (intro step) simp
    finally show ?case by simp
  qed
  from 3 have "(hd (queue st), node) \<in> set graph" by (simp add: map_of_SomeD)
  then have sub: "nodeId ` set (connections node) \<subseteq> U"
    by (force simp: U_def graph_targets_def)
  from 3 have "length (tl (queue st)) < length (queue st)"
    by (cases "queue st") simp_all
  then have "bfs_measure graph (st\<lparr>queue := tl (queue st)\<rparr>) < bfs_measure graph st"
    by (simp add: bfs_measure_def)
  with fold [OF sub, of "st\<lparr>queue := tl (queue st)\<rparr>"] show ?case by simp
qed

declare bfs_loop.simps [simp del]

definition bfs_result :: "string \<Rightarrow> knowledge_graph \<Rightarrow> int \<Rightarrow> (string \<times> KnowledgeGraphNode) list" where
  \<comment> \<open>the map \<open>recommendations\<close> when the loop has ended\<close>
  "bfs_result currentArticleId graph limit =
     recommendations
       (bfs_loop graph limit
          \<lparr>queue = [currentArticleId], visited = [currentArticleId], recommendations = []\<rparr>)"

definition getRecommendations :: "string \<Rightarrow> knowledge_graph \<Rightarrow> int \<Rightarrow> KnowledgeGraphNode list" where
  "getRecommendations currentArticleId graph limit =
     (case map_of graph currentArticleId of
        None \<Rightarrow> []
      | Some currentNode \<Rightarrow> slice0 (map snd (bfs_result currentArticleId graph limit)) limit)"

definition recommended_ids :: "string \<Rightarrow> knowledge_graph \<Rightarrow> int \<Rightarrow> string list" where
  \<comment> \<open>the keys of the graph under which the returned nodes are stored, in the same
      order\<close>
  "recommended_ids currentArticleId graph limit =
     (case map_of graph currentArticleId of
        None \<Rightarrow> []
      | Some currentNode \<Rightarrow> slice0 (map fst (bfs_result currentArticleId graph limit)) limit)"

text \<open>A node is reachable from another one along one or more connections of any type.\<close>

inductive reachable :: "knowledge_graph \<Rightarrow> string \<Rightarrow> string \<Rightarrow> bool" for graph where
  edge: "map_of graph a = Some n \<Longrightarrow> c \<in> set (connections n) \<Longrightarrow> reachable graph a (nodeId c)"
| path: "reachable graph a b \<Longrightarrow> map_of graph b = Some n \<Longrightarrow> c \<in> set (connections n)
           \<Longrightarrow> reachable graph a (nodeId c)"

definition bfs_inv :: "knowledge_graph \<Rightarrow> string \<Rightarrow> bfs_state \<Rightarrow> bool" where
  \<comment> \<open>what the search keeps: every visited id is the start or reachable from it, and
      the recommendations are visited nodes of the graph other than the start, each
      stored once\<close>
  "bfs_inv graph start st \<longleftrightarrow>
     start \<in> set (visited st)
     \<and> set (queue st) \<subseteq> set (visited st)
     \<and> (\<forall>k \<in> set (visited st). k = start \<or> reachable graph start k)
     \<and> distinct (map fst (recommendations st))
     \<and> fst ` set (recommendations st) \<subseteq> set (visited st) - {start}
     \<and> (\<forall>kn \<in> set (recommendations st). map_of graph (fst kn) = Some (snd kn))"

text \<open>A graph of two articles for the examples.\<close>

definition g_ex :: knowledge_graph where
  "g_ex = [(''a'', \<lparr>node_id = ''a'', node_title = ''Alpha'', node_slug = ''alpha'',
                   connections = [\<lparr>nodeId = ''b'', conn_type = Related\<rparr>]\<rparr>),
          (''b'', \<lparr>node_id = ''b'', node_title = ''Beta'', node_slug = ''beta'',
                   connections = []\<rparr>)]"

section \<open>Properties of the token estimate\<close>

lemma ceil_nat_div:
  "\<lceil>(of_nat n :: 'a :: floor_ceiling) / numeral k\<rceil> = - ((- int n) div numeral k)"
proof -
  have "\<lceil>(of_nat n :: 'a) / numeral k\<rceil> = \<lceil>(of_int (int n) :: 'a) / of_int (numeral k)\<rceil>"
    by simp
  also have "\<dots> = - ((- int n) div numeral k)"
    by (simp only: ceiling_divide_eq_div)
  finally show ?thesis .
qed

lemma neg_div_mono:
  fixes n :: nat
  assumes "0 < b'" "b' \<le> (b::int)"
  shows "(- int n) div b' \<le> (- int n) div b"
proof (cases "n = 0")
  case True
  then show ?thesis by simp
next
  case False
  then have "- int n < 0" by simp
  from zdiv_mono2_neg [OF this assms] show ?thesis .
qed

text \<open>
  C9. For every string \<open>text\<close>, \<open>estimateTokens text\<close> has
  \<open>approximate = ceil (len / 4)\<close>, \<open>range.min = ceil (len / 5)\<close> and
  \<open>range.max = ceil (len / 3)\<close>, where \<open>len\<close> is the length of the text and the
  quotients are the exact ones; hence \<open>range.min \<le> approximate \<le> range.max\<close>, and the
  empty string gives the all-zero estimate.
\<close>

theorem estimateTokens_spec:
  "approximate (estimateTokens text) = \<lceil>real (length text) / 4\<rceil>
   \<and> range_min (token_range (estimateTokens text)) = \<lceil>real (length text) / 5\<rceil>
   \<and> range_max (token_range (estimateTokens text)) = \<lceil>real (length text) / 3\<rceil>
   \<and> range_min (token_range (estimateTokens text)) \<le> approximate (estimateTokens text)
   \<and> approximate (estimateTokens text) \<le> range_max (token_range (estimateTokens text))
   \<and> estimateTokens [] = \<lparr>approximate = 0, token_range = \<lparr>range_min = 0, range_max = 0\<rparr>\<rparr>"
  by (simp add: estimateTokens_def ceil_nat_div Let_def neg_div_mono)

section \<open>Properties of the chunker\<close>

lemma chunk_inv_init:
  "chunk_inv \<lparr>chunks = [], currentChunk = [], cur_startChar = 0, cur_chunkIndex = 0\<rparr>"
  by (simp add: chunk_inv_def)

lemma make_chunk_sel [simp]:
  "chunkIndex (make_chunk a t st) = cur_chunkIndex st"
  "startChar (metadata (make_chunk a t st)) = cur_startChar st"
  "endChar (metadata (make_chunk a t st)) = cur_startChar st + int (length (currentChunk st))"
  "content (make_chunk a t st) = currentChunk st"
  by (simp_all add: make_chunk_def)

lemma chunk_inv_push:
  assumes "chunk_inv st"
  shows "map chunkIndex (chunks st @ [make_chunk a t st]) = map int [0..<Suc (length (chunks st))]"
    and "sorted (map (\<lambda>c. startChar (metadata c)) (chunks st @ [make_chunk a t st]))"
    and "sorted (map (\<lambda>c. endChar (metadata c)) (chunks st @ [make_chunk a t st]))"
  using assms by (auto simp: chunk_inv_def sorted_append)

lemma chunk_step_flush:
  assumes "currentChunk st \<noteq> []"
    and "chunkSize < int (length (currentChunk st)) + 1 + int (length s)"
  shows "chunk_step chunkSize os a t st s =
      \<lparr>chunks = chunks st @ [make_chunk a t st],
       currentChunk = drop (nat (max 0 (int (length (currentChunk st)) - os))) (currentChunk st)
                        @ '' '' @ s,
       cur_startChar = cur_startChar st + max 0 (int (length (currentChunk st)) - os),
       cur_chunkIndex = cur_chunkIndex st + 1\<rparr>"
  using assms by (simp add: chunk_step_def Let_def)

lemma chunk_step_keep:
  assumes "currentChunk st = [] \<or> int (length (currentChunk st)) + 1 + int (length s) \<le> chunkSize"
  shows "chunk_step chunkSize os a t st s =
      st\<lparr>currentChunk := currentChunk st @ (if currentChunk st \<noteq> [] then '' '' else []) @ s\<rparr>"
proof (cases "currentChunk st = []")
  case True
  then show ?thesis by (simp add: chunk_step_def Let_def)
next
  case False
  with assms have "\<not> chunkSize < int (length (currentChunk st)) + 1 + int (length s)"
    by simp
  with False show ?thesis by (simp add: chunk_step_def Let_def)
qed

lemma chunk_inv_step:
  assumes "chunk_inv st"
  shows "chunk_inv (chunk_step cs os a t st s)"
proof (cases "currentChunk st \<noteq> [] \<and> cs < int (length (currentChunk st)) + 1 + int (length s)")
  case True
  define ov where "ov = max 0 (int (length (currentChunk st)) - os)"
  have ov0: "0 \<le> ov" by (simp add: ov_def)
  have st': "chunk_step cs os a t st s =
      \<lparr>chunks = chunks st @ [make_chunk a t st],
       currentChunk = drop (nat ov) (currentChunk st) @ '' '' @ s,
       cur_startChar = cur_startChar st + ov,
       cur_chunkIndex = cur_chunkIndex st + 1\<rparr>"
    unfolding ov_def using True by (intro chunk_step_flush) simp_all
  have len: "int (length (currentChunk st)) \<le> ov + int (length (drop (nat ov) (currentChunk st)))"
    using ov0 by (cases "nat ov \<le> length (currentChunk st)") auto
  note push = chunk_inv_push [OF assms, of a t]
  have "\<forall>c \<in> set (chunks st). startChar (metadata c) \<le> cur_startChar st + ov"
    using assms ov0 by (fastforce simp: chunk_inv_def)
  moreover have "\<forall>c \<in> set (chunks st). endChar (metadata c)
       \<le> cur_startChar st + ov + int (length (drop (nat ov) (currentChunk st) @ '' '' @ s))"
  proof
    fix c assume "c \<in> set (chunks st)"
    then have "endChar (metadata c) \<le> cur_startChar st + int (length (currentChunk st))"
      using assms by (simp add: chunk_inv_def)
    with len show "endChar (metadata c)
       \<le> cur_startChar st + ov + int (length (drop (nat ov) (currentChunk st) @ '' '' @ s))"
      by simp
  qed
  moreover have "cur_chunkIndex st + 1 = int (Suc (length (chunks st)))"
    using assms by (simp add: chunk_inv_def)
  ultimately show ?thesis
    unfolding st' using push ov0 len by (simp add: chunk_inv_def)
next
  case False
  then have st': "chunk_step cs os a t st s =
      st\<lparr>currentChunk := currentChunk st @ (if currentChunk st \<noteq> [] then '' '' else []) @ s\<rparr>"
    by (intro chunk_step_keep) auto
  show ?thesis
    unfolding st' using assms by (fastforce simp: chunk_inv_def)
qed

lemma chunk_inv_loop:
  "chunk_inv st \<Longrightarrow> chunk_inv (chunk_loop cs os a t st ss)"
  by (induction ss arbitrary: st) (simp_all add: chunk_inv_step)

lemma chunk_final_props:
  assumes "chunk_inv st"
  shows "map chunkIndex (chunk_final a t st) = map int [0..<length (chunk_final a t st)]"
    and "sorted (map (\<lambda>c. startChar (metadata c)) (chunk_final a t st))"
    and "sorted (map (\<lambda>c. endChar (metadata c)) (chunk_final a t st))"
  using assms chunk_inv_push [OF assms, of a t]
  by (auto simp: chunk_final_def chunk_inv_def)

text \<open>
  C7. For every content string and all chunking parameters, the chunks returned by
  \<open>chunkContent\<close> carry the indices \<open>0, 1, \<dots>, n - 1\<close> in this order, and both
  \<open>startChar\<close> and \<open>endChar\<close> are non-decreasing along the list.
\<close>

theorem chunkContent_indices_and_offsets:
  "map chunkIndex (chunkContent text chunkSize overlapSize artId ttl)
     = map int [0..<length (chunkContent text chunkSize overlapSize artId ttl)]
   \<and> sorted (map (\<lambda>c. startChar (metadata c)) (chunkContent text chunkSize overlapSize artId ttl))
   \<and> sorted (map (\<lambda>c. endChar (metadata c)) (chunkContent text chunkSize overlapSize artId ttl))"
  unfolding chunkContent_def Let_def
  by (intro conjI chunk_final_props chunk_inv_loop chunk_inv_init)

lemma pending_step: "pending (chunk_step cs os a t st s) \<le> Suc (pending st)"
proof (cases "currentChunk st \<noteq> [] \<and> cs < int (length (currentChunk st)) + 1 + int (length s)")
  case True
  then show ?thesis by (simp add: chunk_step_flush pending_def)
next
  case False
  then have "chunk_step cs os a t st s =
      st\<lparr>currentChunk := currentChunk st @ (if currentChunk st \<noteq> [] then '' '' else []) @ s\<rparr>"
    by (intro chunk_step_keep) auto
  then show ?thesis by (simp add: pending_def)
qed

lemma pending_loop: "pending (chunk_loop cs os a t st ss) \<le> pending st + length ss"
proof (induction ss arbitrary: st)
  case Nil
  then show ?case by simp
next
  case (Cons s ss)
  have "pending (chunk_loop cs os a t (chunk_step cs os a t st s) ss)
          \<le> pending (chunk_step cs os a t st s) + length ss"
    by (rule Cons.IH)
  also have "\<dots> \<le> Suc (pending st) + length ss"
    using pending_step [of cs os a t st s] by simp
  finally show ?case by simp
qed

lemma length_chunk_final: "length (chunk_final a t st) \<le> pending st"
  by (auto simp: chunk_final_def pending_def trim_def)

lemma length_split_sentences_from:
  "length (split_sentences_from cur s) \<le> Suc (length s)"
proof (induction cur s rule: split_sentences_from.induct)
  case (1 cur)
  then show ?case by simp
next
  case (2 cur c cs)
  have "length (dropWhile is_space cs) \<le> length cs" by (rule length_dropWhile_le)
  with 2 show ?case by (auto simp: le_Suc_eq)
qed

text \<open>
  C10. \<open>chunkContent\<close> makes one pass over the finite list of sentences, for every
  content, chunk size and overlap size (also when the overlap is not smaller than the
  chunk size): it returns at most one chunk per sentence, and the content has at most
  one sentence more than it has characters.
\<close>

theorem chunkContent_bounded:
  "length (chunkContent text chunkSize overlapSize artId ttl) \<le> length (split_sentences text)
   \<and> length (split_sentences text) \<le> length text + 1"
proof
  show "length (chunkContent text chunkSize overlapSize artId ttl) \<le> length (split_sentences text)"
    unfolding chunkContent_def Let_def
    using pending_loop [of chunkSize overlapSize artId ttl
        "\<lparr>chunks = [], currentChunk = [], cur_startChar = 0, cur_chunkIndex = 0\<rparr>"
        "split_sentences text"]
      length_chunk_final [of artId ttl "chunk_loop chunkSize overlapSize artId ttl
        \<lparr>chunks = [], currentChunk = [], cur_startChar = 0, cur_chunkIndex = 0\<rparr>
        (split_sentences text)"]
    by (simp add: pending_def)
  show "length (split_sentences text) \<le> length text + 1"
    using length_split_sentences_from [of "[]" "text"] by (simp add: split_sentences_def)
qed

subsection \<open>The chunks cover the content\<close>

lemma reconstruct_from_append:
  "reconstruct_from acc (xs @ ys) = reconstruct_from (reconstruct_from acc xs) ys"
  by (induction xs arbitrary: acc) simp_all

lemma window_ok_extend: "window_ok V c \<Longrightarrow> window_ok (V @ x) c"
  by (auto simp: window_ok_def intro: prefix_prefix)

lemma prefix_take_drop: "prefix R V \<Longrightarrow> R @ drop (length R) V = V"
  by (auto simp: prefix_def)

lemma cover_inv_init:
  "cover_inv [] \<lparr>chunks = [], currentChunk = [], cur_startChar = 0, cur_chunkIndex = 0\<rparr>"
  by (simp add: cover_inv_def)

lemma cover_inv_keep:
  assumes "cover_inv V st"
  shows "cover_inv (V @ x) (st\<lparr>currentChunk := currentChunk st @ x\<rparr>)"
  using assms by (auto simp: cover_inv_def intro: window_ok_extend prefix_prefix)

lemma cover_inv_flush:
  assumes inv: "cover_inv V st" and os: "0 \<le> os"
  defines "ov \<equiv> max 0 (int (length (currentChunk st)) - os)"
  shows "cover_inv (V @ '' '' @ s)
      \<lparr>chunks = chunks st @ [make_chunk a t st],
       currentChunk = drop (nat ov) (currentChunk st) @ '' '' @ s,
       cur_startChar = cur_startChar st + ov,
       cur_chunkIndex = cur_chunkIndex st + 1\<rparr>"
proof -
  define n where "n = nat (cur_startChar st)"
  define R where "R = reconstruct_from [] (chunks st)"
  have sc: "0 \<le> cur_startChar st" and nV: "n \<le> length V"
    and cur: "currentChunk st = drop n V" and pre: "prefix R V" and nR: "n \<le> length R"
    and win: "\<forall>c \<in> set (chunks st). window_ok V c"
    using inv by (simp_all add: cover_inv_def n_def R_def)
  have ov0: "0 \<le> ov" and ovle: "nat ov \<le> length (currentChunk st)"
    using os by (simp_all add: ov_def)
  have nat_sum: "nat (cur_startChar st + ov) = n + nat ov"
    using sc ov0 by (simp add: n_def nat_add_distrib)
  have bound: "n + nat ov \<le> length V"
    using ovle nV by (simp add: cur)
  have R': "reconstruct_from [] (chunks st @ [make_chunk a t st]) = V"
  proof -
    have "nat (int (length R) - cur_startChar st) = length R - n"
      using sc by (simp add: n_def nat_diff_distrib')
    then have "reconstruct_from [] (chunks st @ [make_chunk a t st])
        = R @ drop (length R - n) (drop n V)"
      by (simp add: reconstruct_from_append R_def cur)
    also have "\<dots> = R @ drop (length R) V"
      using nR by simp
    also have "\<dots> = V" using pre by (rule prefix_take_drop)
    finally show ?thesis .
  qed
  have new: "window_ok (V @ '' '' @ s) (make_chunk a t st)"
    using sc nV by (simp add: window_ok_def cur n_def)
  have old: "\<forall>c \<in> set (chunks st). window_ok (V @ '' '' @ s) c"
    using win by (blast intro: window_ok_extend)
  have buf: "drop (nat ov) (currentChunk st) @ '' '' @ s = drop (n + nat ov) (V @ '' '' @ s)"
    using bound by (simp add: cur add.commute)
  show ?thesis
    unfolding cover_inv_def
    using sc ov0 nat_sum bound R' new old buf by simp
qed

lemma cover_inv_step:
  assumes "cover_inv V st" and "0 \<le> os"
  shows "cover_inv (V @ (if currentChunk st \<noteq> [] then '' '' else []) @ s)
           (chunk_step cs os a t st s)"
proof (cases "currentChunk st \<noteq> [] \<and> cs < int (length (currentChunk st)) + 1 + int (length s)")
  case True
  then have "chunk_step cs os a t st s =
      \<lparr>chunks = chunks st @ [make_chunk a t st],
       currentChunk = drop (nat (max 0 (int (length (currentChunk st)) - os))) (currentChunk st)
                        @ '' '' @ s,
       cur_startChar = cur_startChar st + max 0 (int (length (currentChunk st)) - os),
       cur_chunkIndex = cur_chunkIndex st + 1\<rparr>"
    by (intro chunk_step_flush) simp_all
  moreover have "V @ (if currentChunk st \<noteq> [] then '' '' else []) @ s = V @ '' '' @ s"
    using True by simp
  ultimately show ?thesis
    using cover_inv_flush [OF assms, of s a t] by simp
next
  case False
  then have "chunk_step cs os a t st s =
      st\<lparr>currentChunk := currentChunk st @ (if currentChunk st \<noteq> [] then '' '' else []) @ s\<rparr>"
    by (intro chunk_step_keep) auto
  then show ?thesis
    using cover_inv_keep [OF assms(1), of "(if currentChunk st \<noteq> [] then '' '' else []) @ s"]
    by simp
qed

lemma chunk_step_nonempty:
  "currentChunk (chunk_step cs os a t st s) \<noteq> [] \<longleftrightarrow> currentChunk st \<noteq> [] \<or> s \<noteq> []"
proof (cases "currentChunk st \<noteq> [] \<and> cs < int (length (currentChunk st)) + 1 + int (length s)")
  case True
  then show ?thesis by (simp add: chunk_step_flush)
next
  case False
  then have "chunk_step cs os a t st s =
      st\<lparr>currentChunk := currentChunk st @ (if currentChunk st \<noteq> [] then '' '' else []) @ s\<rparr>"
    by (intro chunk_step_keep) auto
  then show ?thesis by simp
qed

lemma cover_inv_loop:
  assumes "cover_inv V st" and "0 \<le> os"
  shows "cover_inv (glue V (currentChunk st \<noteq> []) ss) (chunk_loop cs os a t st ss)"
  using assms(1)
proof (induction ss arbitrary: V st)
  case Nil
  then show ?case by simp
next
  case (Cons s ss)
  have "cover_inv (V @ (if currentChunk st \<noteq> [] then '' '' else []) @ s)
           (chunk_step cs os a t st s)"
    using Cons.prems assms(2) by (rule cover_inv_step)
  from Cons.IH [OF this] show ?case
    by (simp add: chunk_step_nonempty)
qed

lemma chunk_loop_nonempty:
  "currentChunk (chunk_loop cs os a t st ss) \<noteq> []
     \<longleftrightarrow> currentChunk st \<noteq> [] \<or> (\<exists>s \<in> set ss. s \<noteq> [])"
proof (induction ss arbitrary: st)
  case Nil
  then show ?case by simp
next
  case (Cons s ss)
  have "currentChunk (chunk_loop cs os a t st (s # ss)) \<noteq> []
      \<longleftrightarrow> currentChunk (chunk_step cs os a t st s) \<noteq> [] \<or> (\<exists>s \<in> set ss. s \<noteq> [])"
    using Cons.IH [of "chunk_step cs os a t st s"] by simp
  also have "\<dots> \<longleftrightarrow> (currentChunk st \<noteq> [] \<or> s \<noteq> []) \<or> (\<exists>s \<in> set ss. s \<noteq> [])"
    by (simp only: chunk_step_nonempty)
  also have "\<dots> \<longleftrightarrow> currentChunk st \<noteq> [] \<or> (\<exists>x \<in> set (s # ss). x \<noteq> [])"
    by auto
  finally show ?case .
qed

lemma glue_True: "glue V True ss = V @ concat (map (\<lambda>s. '' '' @ s) ss)"
  by (induction ss arbitrary: V) simp_all

lemma join_space_Cons: "join_space (s # ss) = s @ concat (map (\<lambda>s. '' '' @ s) ss)"
  by (induction ss arbitrary: s) simp_all

lemma glue_join:
  assumes "ss = [] \<or> hd ss \<noteq> [] \<or> tl ss = []"
  shows "glue [] False ss = join_space ss"
proof (cases ss)
  case Nil
  then show ?thesis by simp
next
  case (Cons s rest)
  show ?thesis
  proof (cases "s = []")
    case True
    with assms Cons have "rest = []" by simp
    with Cons True show ?thesis by simp
  next
    case False
    with Cons show ?thesis by (simp add: glue_True join_space_Cons)
  qed
qed

lemma split_sentences_from_first:
  "split_sentences_from cur s = x # rest \<Longrightarrow> rest \<noteq> [] \<Longrightarrow> x \<noteq> []"
  by (induction cur s rule: split_sentences_from.induct) (auto split: if_splits)

lemma split_sentences_from_not_Nil: "split_sentences_from cur s \<noteq> []"
  by (induction cur s rule: split_sentences_from.induct) auto


lemma reconstruct_push:
  assumes "cover_inv V st"
  shows "reconstruct_from [] (chunks st @ [make_chunk a t st]) = V"
proof -
  define n where "n = nat (cur_startChar st)"
  define R where "R = reconstruct_from [] (chunks st)"
  have sc: "0 \<le> cur_startChar st" and cur: "currentChunk st = drop n V"
    and pre: "prefix R V" and nR: "n \<le> length R"
    using assms by (simp_all add: cover_inv_def n_def R_def)
  have "nat (int (length R) - cur_startChar st) = length R - n"
    using sc by (simp add: n_def nat_diff_distrib')
  then have "reconstruct_from [] (chunks st @ [make_chunk a t st])
      = R @ drop (length R - n) (drop n V)"
    by (simp add: reconstruct_from_append R_def cur)
  also have "\<dots> = R @ drop (length R) V"
    using nR by simp
  also have "\<dots> = V" using pre by (rule prefix_take_drop)
  finally show ?thesis .
qed

lemma window_ok_push:
  assumes "cover_inv V st"
  shows "window_ok V (make_chunk a t st)"
  using assms by (simp add: cover_inv_def window_ok_def)

lemma window_ok_take:
  assumes "window_ok V c"
  shows "content c = take (nat (endChar (metadata c) - startChar (metadata c)))
                       (drop (nat (startChar (metadata c))) V)"
  using assms by (auto simp: window_ok_def prefix_def)

lemma trim_nonempty:
  assumes "s \<noteq> []" and "\<not> is_space (last s)"
  shows "trim s \<noteq> []"
proof -
  define u where "u = dropWhile is_space s"
  have "last s \<in> set s" using assms(1) by simp
  with assms(2) have u: "u \<noteq> []"
    unfolding u_def by (auto simp: dropWhile_eq_Nil_conv)
  have "s = takeWhile is_space s @ u" by (simp add: u_def)
  then have "last s = last u" using u by (metis last_appendR)
  with assms(2) u have "\<not> is_space (hd (rev u))" by (simp add: hd_rev)
  moreover have "rev u \<noteq> []" using u by simp
  ultimately have "dropWhile is_space (rev u) = rev u"
    by (cases "rev u") simp_all
  then show ?thesis using u by (simp add: trim_def u_def)
qed

lemma chunkContent_empty: "chunkContent [] chunkSize overlapSize artId ttl = []"
proof -
  define init where
    "init = \<lparr>chunks = [], currentChunk = [], cur_startChar = 0, cur_chunkIndex = 0\<rparr>"
  have "chunk_step chunkSize overlapSize artId ttl init [] = init"
    using chunk_step_keep [of init "[]" chunkSize overlapSize artId ttl]
    by (simp add: init_def)
  then show ?thesis
    by (simp add: chunkContent_def split_sentences_def chunk_final_def trim_def init_def)
qed

lemma chunkContent_covers_nonempty:
  assumes single: "join_space (split_sentences text) = text"
    and nonempty: "text \<noteq> []"
    and nospace: "\<not> is_space (last text)"
    and overlap: "0 \<le> overlapSize"
  obtains st where
    "chunkContent text chunkSize overlapSize artId ttl = chunks st @ [make_chunk artId ttl st]"
    and "cover_inv text st" and "currentChunk st \<noteq> []"
proof -
  define ss where "ss = split_sentences text"
  define init where
    "init = \<lparr>chunks = [], currentChunk = [], cur_startChar = 0, cur_chunkIndex = 0\<rparr>"
  define st where "st = chunk_loop chunkSize overlapSize artId ttl init ss"
  obtain x rest where ss: "ss = x # rest"
    using split_sentences_from_not_Nil [of "[]" "text"]
    by (cases ss) (simp_all add: ss_def split_sentences_def)
  have x: "x \<noteq> []"
  proof (cases "rest = []")
    case True
    with ss single nonempty show ?thesis by (auto simp: ss_def)
  next
    case False
    with ss show ?thesis
      using split_sentences_from_first [of "[]" "text" x rest]
      by (simp add: ss_def split_sentences_def)
  qed
  have glue: "glue [] False ss = text"
    using glue_join [of ss] ss x single by (simp add: ss_def)
  have inv: "cover_inv text st"
    using cover_inv_loop [OF cover_inv_init overlap, of ss chunkSize artId ttl] glue
    by (simp add: st_def init_def)
  have cur_ne: "currentChunk st \<noteq> []"
    unfolding st_def chunk_loop_nonempty using ss x by auto
  define n where "n = nat (cur_startChar st)"
  have cur: "currentChunk st = drop n text"
    using inv by (simp_all add: cover_inv_def n_def)
  have n: "n < length text" using cur_ne cur by simp
  have "last (currentChunk st) = last text"
    using n by (simp add: cur last_drop)
  with nospace cur_ne have "trim (currentChunk st) \<noteq> []"
    by (simp add: trim_nonempty)
  then have fin: "chunk_final artId ttl st = chunks st @ [make_chunk artId ttl st]"
    by (simp add: chunk_final_def)
  have "chunkContent text chunkSize overlapSize artId ttl = chunk_final artId ttl st"
    by (simp add: chunkContent_def Let_def st_def init_def ss_def)
  with fin have "chunkContent text chunkSize overlapSize artId ttl
      = chunks st @ [make_chunk artId ttl st]"
    by simp
  then show ?thesis using inv cur_ne by (rule that)
qed

text \<open>
  C3, as amended. Let the content not end in whitespace and have exactly one space
  after every sentence end that is followed by whitespace (so joining its sentences
  with one space gives the content back), and let the overlap size be non-negative.
  Then the content of every chunk of \<open>chunkContent\<close> is the window
  \<open>startChar..endChar\<close> of the content, and the windows joined without their overlaps
  give the content back. When the content is not empty, there is at least one chunk
  and \<open>endChar\<close> of the last chunk is the length of the content. This holds for every
  chunk size, so also for chunk size 1024 and overlap 128 on an article of 500 words.
\<close>

theorem chunkContent_covers:
  assumes single: "join_space (split_sentences text) = text"
    and nospace: "text = [] \<or> \<not> is_space (last text)"
    and overlap: "0 \<le> overlapSize"
  shows "(let cs = chunkContent text chunkSize overlapSize artId ttl
          in reconstruct cs = text
             \<and> (\<forall>c \<in> set cs.
                   content c = take (nat (endChar (metadata c) - startChar (metadata c)))
                                 (drop (nat (startChar (metadata c))) text))
             \<and> (text \<noteq> [] \<longrightarrow>
                   cs \<noteq> [] \<and> endChar (metadata (last cs)) = int (length text)))"
proof (cases "text = []")
  case True
  then show ?thesis by (simp add: chunkContent_empty reconstruct_def)
next
  case False
  with nospace have "\<not> is_space (last text)" by simp
  with single False obtain st where
    cs: "chunkContent text chunkSize overlapSize artId ttl = chunks st @ [make_chunk artId ttl st]"
    and inv: "cover_inv text st" and cur_ne: "currentChunk st \<noteq> []"
    using overlap by (rule chunkContent_covers_nonempty)
  define n where "n = nat (cur_startChar st)"
  have sc: "0 \<le> cur_startChar st" and cur: "currentChunk st = drop n text"
    using inv by (simp_all add: cover_inv_def n_def)
  have n: "n < length text" using cur_ne cur by simp
  have 1: "chunks st @ [make_chunk artId ttl st] \<noteq> []" by simp
  have 2: "reconstruct (chunks st @ [make_chunk artId ttl st]) = text"
    unfolding reconstruct_def using inv by (rule reconstruct_push)
  have 3: "endChar (metadata (last (chunks st @ [make_chunk artId ttl st]))) = int (length text)"
    using sc n by (simp add: cur n_def)
  have 4: "\<forall>c \<in> set (chunks st @ [make_chunk artId ttl st]).
      content c = take (nat (endChar (metadata c) - startChar (metadata c)))
                    (drop (nat (startChar (metadata c))) text)"
  proof
    fix c assume "c \<in> set (chunks st @ [make_chunk artId ttl st])"
    then have "window_ok text c"
      using inv window_ok_push [OF inv, of artId ttl] by (auto simp: cover_inv_def)
    then show "content c = take (nat (endChar (metadata c) - startChar (metadata c)))
                    (drop (nat (startChar (metadata c))) text)"
      by (rule window_ok_take)
  qed
  show ?thesis
    unfolding Let_def cs using 1 2 3 4 by blast
qed

theorem chunkContent_covers_witness:
  "join_space (split_sentences ''Aaa bbb. Ccc ddd. Eee fff. Ggg.'') = ''Aaa bbb. Ccc ddd. Eee fff. Ggg.''
   \<and> \<not> is_space (last ''Aaa bbb. Ccc ddd. Eee fff. Ggg.'')
   \<and> (0::int) \<le> 4
   \<and> ''Aaa bbb. Ccc ddd. Eee fff. Ggg.'' \<noteq> []
   \<and> reconstruct (chunkContent ''Aaa bbb. Ccc ddd. Eee fff. Ggg.'' 12 4 ''art1'' ''T'')
       = ''Aaa bbb. Ccc ddd. Eee fff. Ggg.''
   \<and> chunkContent ''Aaa bbb. Ccc ddd. Eee fff. Ggg.'' 12 4 ''art1'' ''T'' \<noteq> []
   \<and> endChar (metadata (last (chunkContent ''Aaa bbb. Ccc ddd. Eee fff. Ggg.'' 12 4 ''art1'' ''T'')))
       = int (length ''Aaa bbb. Ccc ddd. Eee fff. Ggg.'')"
proof -
  have h1: "join_space (split_sentences ''Aaa bbb. Ccc ddd. Eee fff. Ggg.'')
      = ''Aaa bbb. Ccc ddd. Eee fff. Ggg.''"
    by code_simp
  have h2: "\<not> is_space (last ''Aaa bbb. Ccc ddd. Eee fff. Ggg.'')" by code_simp
  then have h2': "''Aaa bbb. Ccc ddd. Eee fff. Ggg.'' = []
      \<or> \<not> is_space (last ''Aaa bbb. Ccc ddd. Eee fff. Ggg.'')" by (rule disjI2)
  have h3: "(0::int) \<le> 4" by simp
  have h4: "''Aaa bbb. Ccc ddd. Eee fff. Ggg.'' \<noteq> []" by simp
  from chunkContent_covers [OF h1 h2' h3, of 12 "''art1''" "''T''"] h1 h2 h3 h4
  show ?thesis unfolding Let_def by blast
qed

text \<open>
  Without these conditions the cover fails: two spaces between sentences are joined as
  one, so the offsets fall short of the content; a trailing space after the last flush
  is dropped with the blank buffer; a negative overlap moves \<open>startChar\<close> past the
  window.
\<close>

theorem chunkContent_covers_counterexample:
  "((128::int) < 1024
     \<and> reconstruct (chunkContent ''A.  B.'' 1024 128 ''art1'' ''T'') \<noteq> ''A.  B.''
     \<and> endChar (metadata (last (chunkContent ''A.  B.'' 1024 128 ''art1'' ''T'')))
         \<noteq> int (length ''A.  B.''))
   \<and> ((0::int) < 2
     \<and> reconstruct (chunkContent ''A. '' 2 0 ''art1'' ''T'') \<noteq> ''A. '')
   \<and> ((-1::int) < 3
     \<and> endChar (metadata (last (chunkContent ''A. B.'' 3 (-1) ''art1'' ''T'')))
         \<noteq> int (length ''A. B.''))"
  by code_simp

section \<open>Atomic answers outside the band\<close>

text \<open>
  C1. The code does not keep every answer of \<open>extractAtomicAnswers\<close> within 40 to 60
  words: the flush inside the loop pushes the buffer whatever its word count, and only
  the flush after the loop tests the band. On a one-word sentence followed by a
  sentence of 60 words the function returns two answers, of 1 and of 60 words.
\<close>

theorem extractAtomicAnswers_short_answer:
  "map (\<lambda>a. word_count (answer a))
     (extractAtomicAnswers
        ''Go. a a a a a a a a a a a a a a a a a a a a a a a a a a a a a a a a a a a a a a a a a a a a a a a a a a a a a a a a a a a a.''
        ''My Heading'')
   = [1, 60]"
  by code_simp

section \<open>Sorting with a difference as comparison\<close>

text \<open>
  With the comparison \<open>(a, b) => f(b) - f(a)\<close> the stable sort is the insertion sort of
  the library by the key \<open>- f\<close>.
\<close>

lemma insert_by_insort_key:
  "insert_by (\<lambda>a b. Some (f b - f a)) x ys = insort_key (\<lambda>x. - f x) x ys"
  by (induction ys) auto

lemma js_sort_sort_key:
  "js_sort (\<lambda>a b. Some (f b - f a)) xs = sort_key (\<lambda>x. - f x) xs"
  by (induction xs) (simp_all add: js_sort_def insert_by_insort_key)

section \<open>Properties of the similarity\<close>

lemma set_add_props: "set (set_add xs x) = insert x (set xs)"
  "distinct xs \<Longrightarrow> distinct (set_add xs x)"
  by (auto simp: set_add_def)

lemma new_Set_fold:
  "set (foldl set_add acc xs) = set acc \<union> set xs"
  "distinct acc \<Longrightarrow> distinct (foldl set_add acc xs)"
  by (induction xs arbitrary: acc) (auto simp: set_add_props)

lemma new_Set_props: "set (new_Set xs) = set xs" "distinct (new_Set xs)"
  by (simp_all add: new_Set_def new_Set_fold)

lemma length_new_Set: "length (new_Set xs) = card (set xs)"
  using distinct_card [OF new_Set_props(2), of xs] by (simp add: new_Set_props)

lemma length_filter_mem:
  assumes "distinct xs"
  shows "length (filter (\<lambda>k. k \<in> S) xs) = card (set xs \<inter> S)"
proof -
  have "distinct (filter (\<lambda>k. k \<in> S) xs)" using assms by simp
  then have "length (filter (\<lambda>k. k \<in> S) xs) = card (set (filter (\<lambda>k. k \<in> S) xs))"
    by (rule distinct_card [symmetric])
  also have "set (filter (\<lambda>k. k \<in> S) xs) = set xs \<inter> S" by auto
  finally show ?thesis .
qed

lemma calculateSimilarity_card:
  "calculateSimilarity A B =
     (if card (keyword_set A) + card (keyword_set B) - card (keyword_set A \<inter> keyword_set B) = 0
      then 0
      else of_nat (card (keyword_set A \<inter> keyword_set B))
             / of_nat (card (keyword_set A) + card (keyword_set B)
                        - card (keyword_set A \<inter> keyword_set B)))"
  by (simp add: calculateSimilarity_def Let_def length_new_Set new_Set_props
      length_filter_mem keyword_set_def)

lemma card_union_zero:
  assumes "finite A" "finite B"
  shows "card A + card B - card (A \<inter> B) = 0 \<longleftrightarrow> A \<union> B = {}"
proof -
  have "card A + card B - card (A \<inter> B) = card (A \<union> B)"
    using card_Un_Int [OF assms] by simp
  then show ?thesis using assms by simp
qed

lemma finite_keyword_set [simp]: "finite (keyword_set A)"
  by (simp add: keyword_set_def)

lemma length_slice0: "0 \<le> n \<Longrightarrow> length (slice0 xs n) \<le> nat n"
  by (simp add: slice0_def)

lemma card_keyword_set: "card (keyword_set A) \<le> 10"
proof -
  have "card (keyword_set A) \<le> length (extractKeywords A 10)"
    by (simp add: keyword_set_def card_length)
  also have "\<dots> \<le> 10"
    using length_slice0 [of 10] by (simp add: extractKeywords_def Let_def)
  finally show ?thesis .
qed

text \<open>
  C8. For all contents \<open>A\<close> and \<open>B\<close>, \<open>calculateSimilarity A B\<close> is the Jaccard
  similarity of their keyword sets (the sets of their top ten keywords, so of at most
  ten elements each): the size of the intersection over the size of the union, and 0
  when the union is empty. It lies between 0 and 1, it is 1 for a content with at
  least one keyword compared with itself, and it is 0 for two contents that share no
  keyword.
\<close>

theorem calculateSimilarity_jaccard:
  "calculateSimilarity A B =
     (if keyword_set A \<union> keyword_set B = {} then 0
      else of_nat (card (keyword_set A \<inter> keyword_set B))
             / of_nat (card (keyword_set A) + card (keyword_set B)
                        - card (keyword_set A \<inter> keyword_set B)))
   \<and> 0 \<le> calculateSimilarity A B \<and> calculateSimilarity A B \<le> 1
   \<and> card (keyword_set A) \<le> 10 \<and> card (keyword_set B) \<le> 10
   \<and> (keyword_set A \<noteq> {} \<longrightarrow> calculateSimilarity A A = 1)
   \<and> (keyword_set A \<inter> keyword_set B = {} \<longrightarrow> calculateSimilarity A B = 0)"
proof (intro conjI impI)
  show eq: "calculateSimilarity A B =
     (if keyword_set A \<union> keyword_set B = {} then 0
      else of_nat (card (keyword_set A \<inter> keyword_set B))
             / of_nat (card (keyword_set A) + card (keyword_set B)
                        - card (keyword_set A \<inter> keyword_set B)))"
    unfolding calculateSimilarity_card by (simp only: card_union_zero finite_keyword_set)
  have un: "card (keyword_set A) + card (keyword_set B) - card (keyword_set A \<inter> keyword_set B)
      = card (keyword_set A \<union> keyword_set B)"
    using card_Un_Int [of "keyword_set A" "keyword_set B"] by simp
  have le: "card (keyword_set A \<inter> keyword_set B) \<le> card (keyword_set A \<union> keyword_set B)"
    by (intro card_mono) auto
  show "0 \<le> calculateSimilarity A B"
    unfolding calculateSimilarity_card by simp
  show "calculateSimilarity A B \<le> 1"
    unfolding calculateSimilarity_card un using le by (simp add: divide_le_eq)
  show "card (keyword_set A) \<le> 10" by (rule card_keyword_set)
  show "card (keyword_set B) \<le> 10" by (rule card_keyword_set)
  show "calculateSimilarity A A = 1" if "keyword_set A \<noteq> {}"
  proof -
    have "card (keyword_set A) \<noteq> 0" using that by simp
    then show ?thesis unfolding calculateSimilarity_card by simp
  qed
  show "calculateSimilarity A B = 0" if "keyword_set A \<inter> keyword_set B = {}"
    unfolding calculateSimilarity_card using that by simp
qed

theorem calculateSimilarity_jaccard_witness:
  "keyword_set ''alpha gamma'' \<noteq> {}
   \<and> calculateSimilarity ''alpha gamma'' ''alpha gamma'' = 1
   \<and> keyword_set ''alpha gamma'' \<inter> keyword_set ''omega sigma'' = {}
   \<and> calculateSimilarity ''alpha gamma'' ''omega sigma'' = 0"
proof -
  have h1: "keyword_set ''alpha gamma'' \<noteq> {}" by code_simp
  have h2: "keyword_set ''alpha gamma'' \<inter> keyword_set ''omega sigma'' = {}" by code_simp
  from calculateSimilarity_jaccard [of "''alpha gamma''" "''omega sigma''"] h1 h2
  show ?thesis by blast
qed

section \<open>Self-references in the knowledge graph\<close>

text \<open>
  The search for related articles leaves the current article out, so the graph has
  no self-edge of type \<open>related\<close>.
\<close>

lemma set_map_set: "set (map_set k v kvs) \<subseteq> insert (k, v) (set kvs)"
  by (induction kvs) (auto split: if_splits)

lemma set_slice0: "set (slice0 xs n) \<subseteq> set xs"
  by (auto simp: slice0_def dest: in_set_takeD)

lemma findRelatedArticles_not_self:
  assumes "r \<in> set (findRelatedArticles cur allArticles lmt)"
  shows "rel_id r \<noteq> art_id cur"
proof -
  define scored where "scored = filter (\<lambda>(a, score). score > 1 / 10)
      (map (\<lambda>a. (a, calculateSimilarity (art_content cur) (art_content a)))
         (filter (\<lambda>a. art_id a \<noteq> art_id cur) allArticles))"
  have "findRelatedArticles cur allArticles lmt
      = map (\<lambda>(a, score). \<lparr>rel_id = art_id a, rel_title = art_title a, rel_slug = art_slug a,
                         rel_description = art_description a, relevanceScore = score\<rparr>)
          (slice0 (js_sort (\<lambda>a b. Some (snd b - snd a)) scored) lmt)"
    by (simp only: findRelatedArticles_def scored_def)
  with assms obtain p where p: "p \<in> set (slice0 (js_sort (\<lambda>a b. Some (snd b - snd a)) scored) lmt)"
    and r0: "r = (\<lambda>(a, score). \<lparr>rel_id = art_id a, rel_title = art_title a, rel_slug = art_slug a,
                         rel_description = art_description a, relevanceScore = score\<rparr>) p"
    by (metis (no_types, lifting) imageE list.set_map)
  have r: "rel_id r = art_id (fst p)"
    unfolding r0 by (cases p) simp
  from p have "p \<in> set (js_sort (\<lambda>a b. Some (snd b - snd a)) scored)"
    by (rule subsetD [OF set_slice0])
  then have "p \<in> set (sort_key (\<lambda>x. - snd x) scored)"
    by (simp only: js_sort_sort_key)
  then have "p \<in> set scored" by simp
  then have "p \<in> set (map (\<lambda>a. (a, calculateSimilarity (art_content cur) (art_content a)))
         (filter (\<lambda>a. art_id a \<noteq> art_id cur) allArticles))"
    unfolding scored_def by (rule subsetD [OF filter_is_subset])
  then have "fst p \<in> set (filter (\<lambda>a. art_id a \<noteq> art_id cur) allArticles)"
    by auto
  then have "art_id (fst p) \<noteq> art_id cur" by simp
  with r show ?thesis by simp
qed

lemma add_reference_related:
  assumes "c \<in> set (foldl (add_reference articles) conns refs)" and "conn_type c = Related"
  shows "c \<in> set conns"
  using assms
proof (induction refs arbitrary: conns)
  case Nil
  then show ?case by simp
next
  case (Cons ref refs)
  from Cons.prems have "c \<in> set (add_reference articles conns ref)"
    using Cons.IH by simp
  with Cons.prems(2) show ?case
    by (auto simp: add_reference_def split: option.splits)
qed

lemma related_ok_connect:
  assumes "related_ok graph"
  shows "related_ok (connect_article articles m graph a)"
proof (cases "map_of graph (art_id a)")
  case None
  with assms show ?thesis by (simp add: connect_article_def)
next
  case (Some node)
  define conns1 where "conns1 = connections node
      @ map (\<lambda>related. \<lparr>nodeId = rel_id related, conn_type = Related\<rparr>)
          (findRelatedArticles a articles m)"
  define conns2 where "conns2 = foldl (add_reference articles) conns1
      (extractInternalReferences (art_content a))"
  have g': "connect_article articles m graph a
      = map_set (art_id a) (node\<lparr>connections := conns2\<rparr>) graph"
    using Some by (simp add: connect_article_def Let_def conns1_def conns2_def)
  have node: "(art_id a, node) \<in> set graph" using Some by (rule map_of_SomeD)
  have new_conn: "nodeId c \<noteq> art_id a" if "c \<in> set conns2" "conn_type c = Related" for c
  proof -
    from that have "c \<in> set conns1" unfolding conns2_def by (rule add_reference_related)
    then consider "c \<in> set (connections node)"
      | r where "r \<in> set (findRelatedArticles a articles m)" "nodeId c = rel_id r"
      by (auto simp: conns1_def)
    then show ?thesis
    proof cases
      case 1
      with assms node that(2) have "nodeId c \<noteq> fst (art_id a, node)"
        unfolding related_ok_def by fastforce
      then show ?thesis by simp
    next
      case 2
      from findRelatedArticles_not_self [OF 2(1)] 2(2) show ?thesis by simp
    qed
  qed
  show ?thesis
    unfolding related_ok_def g'
  proof (intro ballI impI)
    fix kn c
    assume kn: "kn \<in> set (map_set (art_id a) (node\<lparr>connections := conns2\<rparr>) graph)"
      and c: "c \<in> set (connections (snd kn))" and rel: "conn_type c = Related"
    have "kn \<in> insert (art_id a, node\<lparr>connections := conns2\<rparr>) (set graph)"
      using kn by (rule subsetD [OF set_map_set])
    then consider (new) "kn = (art_id a, node\<lparr>connections := conns2\<rparr>)"
      | (old) "kn \<in> set graph"
      by blast
    then show "nodeId c \<noteq> fst kn"
    proof cases
      case new
      then have "fst kn = art_id a" and "connections (snd kn) = conns2" by simp_all
      with c have "c \<in> set conns2" by simp
      from new_conn [OF this rel] \<open>fst kn = art_id a\<close> show ?thesis by simp
    next
      case old
      with assms c rel show ?thesis unfolding related_ok_def by blast
    qed
  qed
qed

lemma related_ok_init:
  assumes "related_ok graph"
  shows "related_ok (foldl (\<lambda>graph a.
                            map_set (art_id a)
                              \<lparr>node_id = art_id a, node_title = art_title a,
                               node_slug = art_slug a, connections = []\<rparr> graph) graph articles)"
  using assms
proof (induction articles arbitrary: graph)
  case Nil
  then show ?case by simp
next
  case (Cons a articles)
  have "related_ok (map_set (art_id a)
      \<lparr>node_id = art_id a, node_title = art_title a, node_slug = art_slug a,
       connections = []\<rparr> graph)"
    unfolding related_ok_def
  proof (intro ballI impI)
    fix kn c
    assume kn: "kn \<in> set (map_set (art_id a)
        \<lparr>node_id = art_id a, node_title = art_title a, node_slug = art_slug a,
         connections = []\<rparr> graph)"
      and c: "c \<in> set (connections (snd kn))" and rel: "conn_type c = Related"
    have "kn \<in> insert (art_id a, \<lparr>node_id = art_id a, node_title = art_title a,
        node_slug = art_slug a, connections = []\<rparr>) (set graph)"
      using kn by (rule subsetD [OF set_map_set])
    then consider (new) "connections (snd kn) = []" | (old) "kn \<in> set graph"
      by auto
    then show "nodeId c \<noteq> fst kn"
    proof cases
      case new
      with c show ?thesis by simp
    next
      case old
      with Cons.prems c rel show ?thesis unfolding related_ok_def by blast
    qed
  qed
  from Cons.IH [OF this] show ?case by simp
qed

lemma related_ok_fold:
  "related_ok graph \<Longrightarrow> related_ok (foldl (connect_article articles m) graph as)"
  by (induction as arbitrary: graph) (simp_all add: related_ok_connect)

lemma buildKnowledgeGraph_no_related_self_edge:
  assumes "(k, n) \<in> set (buildKnowledgeGraph articles m)"
    and "c \<in> set (connections n)" and "conn_type c = Related"
  shows "nodeId c \<noteq> k"
proof -
  have "related_ok []" by (simp add: related_ok_def)
  then have "related_ok (buildKnowledgeGraph articles m)"
    unfolding buildKnowledgeGraph_def Let_def
    by (intro related_ok_fold related_ok_init)
  with assms show ?thesis by (fastforce simp: related_ok_def)
qed

text \<open>
  C4. The graph of \<open>buildKnowledgeGraph\<close> can contain a self-edge: a reference marker
  that resolves to the article's own title is added as an edge of type \<open>references\<close>
  from the node to itself, since only the search for related articles leaves the
  article itself out. For the single article \<open>Alpha\<close> with the content
  \<open>See [[Alpha]].\<close> the node \<open>a\<close> gets the connection \<open>a\<close>.
\<close>

theorem buildKnowledgeGraph_self_reference:
  "buildKnowledgeGraph
     [\<lparr>art_id = ''a'', art_title = ''Alpha'', art_slug = ''alpha'', art_description = None,
       art_content = ''See [[Alpha]].''\<rparr>] 10
   = [(''a'', \<lparr>node_id = ''a'', node_title = ''Alpha'', node_slug = ''alpha'',
              connections = [\<lparr>nodeId = ''a'', conn_type = References\<rparr>]\<rparr>)]"
  by code_simp

section \<open>Properties of the ranking\<close>

lemma score_chunks_Inr:
  "score_chunks engine query cs = Inr scored
     \<Longrightarrow> scored = map (\<lambda>c. (c, relevance engine query c)) cs"
proof (induction cs arbitrary: scored)
  case Nil
  then show ?case by simp
next
  case (Cons c cs)
  from Cons.prems obtain v rest where
    v: "calculateSimilarityScore engine query (content c) = Inr v"
    and rest: "score_chunks engine query cs = Inr rest"
    and scored: "scored = (c, v) # rest"
    by (auto split: sum.splits)
  have "relevance engine query c = v" using v by (simp add: relevance_def)
  with Cons.IH [OF rest] scored show ?case by simp
qed

lemma prefix_filter_take: "prefix (filter P (take n xs)) (filter P xs)"
proof -
  have "prefix (take n xs) xs" by (rule take_is_prefix)
  then show ?thesis by (rule filter_mono_prefix)
qed

text \<open>
  C5, as amended. For every chunk list, every query and every \<open>topK \<ge> 0\<close>: when
  \<open>rankChunksForQuery\<close> returns, it returns at most \<open>topK\<close> chunks, no chunk stands
  before a chunk of higher relevance, and chunks of equal relevance keep the order
  they have in the input (for every score, the returned chunks of that score are the
  first ones of the input with that score).
\<close>

theorem rankChunksForQuery_ordered:
  assumes ret: "rankChunksForQuery engine chunk_list query topK = Inr ranked"
    and topK: "0 \<le> topK"
  shows "int (length ranked) \<le> topK
    \<and> sorted_wrt (\<lambda>a b. relevance engine query a \<ge> relevance engine query b) ranked
    \<and> (\<forall>v. prefix (filter (\<lambda>c. relevance engine query c = v) ranked)
                   (filter (\<lambda>c. relevance engine query c = v) chunk_list))"
proof -
  define rel where "rel = relevance engine query"
  define scored where "scored = map (\<lambda>c. (c, rel c)) chunk_list"
  define S where "S = sort_key (\<lambda>p. - snd p) scored"
  define T where "T = take (nat topK) S"
  from ret obtain sc where sc: "score_chunks engine query chunk_list = Inr sc"
    and r0: "ranked = map fst (slice0 (js_sort (\<lambda>a b. Some (snd b - snd a)) sc) topK)"
    by (auto simp: rankChunksForQuery_def split: sum.splits)
  have "sc = scored"
    using score_chunks_Inr [OF sc] by (simp add: scored_def rel_def)
  with r0 topK have ranked: "ranked = map fst T"
    by (simp add: js_sort_sort_key slice0_def T_def S_def)
  have snd_rel: "snd p = rel (fst p)" if "p \<in> set T" for p
  proof -
    from that have "p \<in> set S" unfolding T_def by (rule in_set_takeD)
    then have "p \<in> set scored" by (simp add: S_def)
    then show ?thesis by (auto simp: scored_def)
  qed
  have len: "int (length ranked) \<le> topK"
    using topK by (simp add: ranked T_def)
  have "sorted (map (\<lambda>p. - snd p) S)" unfolding S_def by (rule sorted_sort_key)
  then have "sorted (take (nat topK) (map (\<lambda>p. - snd p) S))" by (rule sorted_wrt_take)
  then have "sorted (map (\<lambda>p. - snd p) T)" by (simp add: T_def take_map)
  then have "sorted_wrt (\<lambda>p q. - snd p \<le> - snd q) T" by (simp add: sorted_map)
  then have "sorted_wrt (\<lambda>p q. rel (fst p) \<ge> rel (fst q)) T"
    by (rule sorted_wrt_mono_rel [rotated]) (simp add: snd_rel)
  then have ord: "sorted_wrt (\<lambda>a b. rel a \<ge> rel b) ranked"
    by (simp add: ranked sorted_wrt_map)
  have stab: "prefix (filter (\<lambda>c. rel c = v) ranked) (filter (\<lambda>c. rel c = v) chunk_list)" for v
  proof -
    have "filter (\<lambda>c. rel c = v) ranked = map fst (filter (\<lambda>p. rel (fst p) = v) T)"
      by (simp add: ranked filter_map comp_def)
    also have "filter (\<lambda>p. rel (fst p) = v) T = filter (\<lambda>p. - snd p = - v) T"
      by (rule filter_cong) (simp_all add: snd_rel)
    finally have 1: "filter (\<lambda>c. rel c = v) ranked = map fst (filter (\<lambda>p. - snd p = - v) T)" .
    have "prefix (filter (\<lambda>p. - snd p = - v) T) (filter (\<lambda>p. - snd p = - v) S)"
      unfolding T_def by (rule prefix_filter_take)
    also have "filter (\<lambda>p. - snd p = - v) S = filter (\<lambda>p. - snd p = - v) scored"
      unfolding S_def by (rule sort_key_stable)
    finally have "prefix (map fst (filter (\<lambda>p. - snd p = - v) T))
                    (map fst (filter (\<lambda>p. - snd p = - v) scored))"
      by (rule map_mono_prefix)
    moreover have "map fst (filter (\<lambda>p. - snd p = - v) scored) = filter (\<lambda>c. rel c = v) chunk_list"
      by (simp add: scored_def filter_map comp_def)
    ultimately show ?thesis using 1 by simp
  qed
  from len ord stab show ?thesis unfolding rel_def by blast
qed

theorem rankChunksForQuery_ordered_witness:
  "rankChunksForQuery no_engine
       (chunkContent ''Aaa bbb. Ccc ddd. Eee ddd ddd.'' 8 0 ''a'' ''T'') ''ddd'' 2
     = Inr (projr (rankChunksForQuery no_engine
       (chunkContent ''Aaa bbb. Ccc ddd. Eee ddd ddd.'' 8 0 ''a'' ''T'') ''ddd'' 2))
   \<and> (0::int) \<le> 2
   \<and> int (length (projr (rankChunksForQuery no_engine
       (chunkContent ''Aaa bbb. Ccc ddd. Eee ddd ddd.'' 8 0 ''a'' ''T'') ''ddd'' 2))) \<le> 2
   \<and> sorted_wrt (\<lambda>a b. relevance no_engine ''ddd'' a \<ge> relevance no_engine ''ddd'' b)
       (projr (rankChunksForQuery no_engine
         (chunkContent ''Aaa bbb. Ccc ddd. Eee ddd ddd.'' 8 0 ''a'' ''T'') ''ddd'' 2))"
proof -
  have h1: "rankChunksForQuery no_engine
       (chunkContent ''Aaa bbb. Ccc ddd. Eee ddd ddd.'' 8 0 ''a'' ''T'') ''ddd'' 2
     = Inr (projr (rankChunksForQuery no_engine
       (chunkContent ''Aaa bbb. Ccc ddd. Eee ddd ddd.'' 8 0 ''a'' ''T'') ''ddd'' 2))"
    by code_simp
  have h2: "(0::int) \<le> 2" by simp
  from rankChunksForQuery_ordered [OF h1 h2] h1 h2 show ?thesis by blast
qed

text \<open>
  The bound fails for a negative \<open>topK\<close>: \<open>slice(0, -1)\<close> drops the last chunk only,
  so two of three chunks are returned for \<open>topK = -1\<close>, which is more than \<open>topK\<close>
  and more than none.
\<close>

theorem rankChunksForQuery_counterexample:
  "map_sum id (map content)
     (rankChunksForQuery no_engine
        (chunkContent ''Aaa bbb. Ccc ddd. Eee ddd ddd.'' 8 0 ''a'' ''T'') ''ddd'' (- 1))
     = Inr ['' Eee ddd ddd.'', '' Ccc ddd.'']
   \<and> \<not> int (length ['' Eee ddd ddd.'', '' Ccc ddd.'']) \<le> - 1
   \<and> \<not> int (length ['' Eee ddd ddd.'', '' Ccc ddd.'']) \<le> max 0 (- 1)"
  by code_simp

text \<open>
  A query whose terms have no syntax characters is scored without an exception, and
  the score is not negative.
\<close>

lemma count_matches_literal:
  assumes "list_all (\<lambda>t. list_all (\<lambda>c. \<not> is_syntax_char c) t) terms"
  shows "\<exists>n. count_matches engine cl subject m terms = Inr n \<and> m \<le> n"
  using assms
proof (induction terms arbitrary: m)
  case Nil
  then show ?case by simp
next
  case (Cons t terms)
  then have lit: "list_all (\<lambda>c. \<not> is_syntax_char c) t"
    and rest: "list_all (\<lambda>t. list_all (\<lambda>c. \<not> is_syntax_char c) t) terms"
    by simp_all
  show ?case
  proof (cases "includes_str cl t")
    case False
    with Cons.IH [OF rest, of m] show ?thesis by simp
  next
    case True
    define k where "k = int (length (regex_scan (literal_matcher t) None subject))"
    have "count_matches engine cl subject m (t # terms)
        = count_matches engine cl subject (m + k) terms"
      using True lit by (simp add: term_regexp_def k_def)
    moreover obtain n where "count_matches engine cl subject (m + k) terms = Inr n" "m + k \<le> n"
      using Cons.IH [OF rest, of "m + k"] by blast
    moreover have "0 \<le> k" by (simp add: k_def)
    ultimately show ?thesis by auto
  qed
qed

lemma calculateSimilarityScore_literal:
  assumes "list_all (\<lambda>t. list_all (\<lambda>c. \<not> is_syntax_char c) t) (split_ws (toLowerCase query))"
  shows "\<exists>v. calculateSimilarityScore engine query subject = Inr v \<and> 0 \<le> v"
proof -
  obtain n where "count_matches engine (toLowerCase subject) subject 0 (split_ws (toLowerCase query)) = Inr n"
    and "0 \<le> n"
    using count_matches_literal [OF assms, of engine "toLowerCase subject" subject 0] by blast
  then show ?thesis by (simp add: calculateSimilarityScore_def Let_def)
qed

text \<open>
  C2. \<open>calculateSimilarityScore\<close> is not total: a term of the query goes into the
  pattern of a regular expression as it is, and the query \<open>(\<close> on a content that
  contains \<open>(\<close> gives the pattern \<open>\b(\b\<close>, whose group is not closed. The call ends in
  a \<open>SyntaxError\<close>, whatever the engine does on the patterns the model leaves open.
\<close>

theorem calculateSimilarityScore_throws:
  "calculateSimilarityScore engine ''('' ''('' = Inl SyntaxError"
  by code_simp

section \<open>Properties of the recommendations\<close>

lemma reachable_next:
  assumes "q = start \<or> reachable graph start q"
    and "map_of graph q = Some node" and "c \<in> set (connections node)"
  shows "reachable graph start (nodeId c)"
  using assms by (auto intro: reachable.edge reachable.path)

lemma visit_inv:
  assumes inv: "bfs_inv graph start st" and reach: "reachable graph start (nodeId c)"
  shows "bfs_inv graph start (visit graph limit st c)"
proof (cases "nodeId c \<in> set (visited st)")
  case True
  with inv show ?thesis by (simp add: visit_def)
next
  case False
  define recs' where "recs' = recommendations (visit graph limit st c)"
  have v: "visited (visit graph limit st c) = visited st @ [nodeId c]"
    using False by (simp add: visit_def)
  have q: "set (queue (visit graph limit st c)) \<subseteq> set (queue st) \<union> {nodeId c}"
    using False by (auto simp: visit_def)
  have i1: "start \<in> set (visited st)" and i2: "set (queue st) \<subseteq> set (visited st)"
    and i3: "\<forall>k \<in> set (visited st). k = start \<or> reachable graph start k"
    and i4: "distinct (map fst (recommendations st))"
    and i5: "fst ` set (recommendations st) \<subseteq> set (visited st) - {start}"
    and i6: "\<forall>kn \<in> set (recommendations st). map_of graph (fst kn) = Some (snd kn)"
    using inv by (simp_all add: bfs_inv_def)
  have ne: "nodeId c \<noteq> start" using False i1 by auto
  have fresh: "nodeId c \<notin> fst ` set (recommendations st)" using False i5 by auto
  have recs': "recs' = (case map_of graph (nodeId c) of
              None \<Rightarrow> recommendations st
            | Some connectedNode \<Rightarrow>
                if map_of (recommendations st) (nodeId c) = None
                then recommendations st @ [(nodeId c, connectedNode)]
                else recommendations st)"
    using False by (simp add: recs'_def visit_def)
  consider (same) "recs' = recommendations st"
    | (new) n where "map_of graph (nodeId c) = Some n" "recs' = recommendations st @ [(nodeId c, n)]"
  proof (cases "map_of graph (nodeId c)")
    case None
    with recs' have "recs' = recommendations st" by simp
    then show ?thesis by (rule same)
  next
    case (Some n)
    show ?thesis
    proof (cases "map_of (recommendations st) (nodeId c) = None")
      case True
      with Some recs' have "recs' = recommendations st @ [(nodeId c, n)]" by simp
      with Some show ?thesis by (rule new)
    next
      case False
      with Some recs' have "recs' = recommendations st" by simp
      then show ?thesis by (rule same)
    qed
  qed
  then have r: "distinct (map fst recs')
      \<and> fst ` set recs' \<subseteq> set (visited st @ [nodeId c]) - {start}
      \<and> (\<forall>kn \<in> set recs'. map_of graph (fst kn) = Some (snd kn))"
  proof cases
    case same
    with i4 i5 i6 show ?thesis by auto
  next
    case new
    with i4 i5 i6 fresh ne show ?thesis by auto
  qed
  have "start \<in> set (visited st @ [nodeId c])" using i1 by simp
  moreover have "set (queue (visit graph limit st c)) \<subseteq> set (visited st @ [nodeId c])"
    using q i2 by auto
  moreover have "\<forall>k \<in> set (visited st @ [nodeId c]). k = start \<or> reachable graph start k"
    using i3 reach by auto
  ultimately show ?thesis
    unfolding bfs_inv_def v using r unfolding recs'_def by blast
qed

lemma fold_visit_inv:
  assumes "bfs_inv graph start st"
    and "\<forall>c \<in> set cs. reachable graph start (nodeId c)"
  shows "bfs_inv graph start (foldl (visit graph limit) st cs)"
  using assms by (induction cs arbitrary: st) (simp_all add: visit_inv)

lemma bfs_inv_pop:
  assumes "bfs_inv graph start st"
  shows "bfs_inv graph start (st\<lparr>queue := tl (queue st)\<rparr>)"
proof -
  have "set (tl (queue st)) \<subseteq> set (queue st)" by (cases "queue st") auto
  with assms show ?thesis by (auto simp: bfs_inv_def)
qed

lemma bfs_loop_inv:
  "bfs_inv graph start st \<Longrightarrow> bfs_inv graph start (bfs_loop graph limit st)"
proof (induction graph limit st rule: bfs_loop.induct)
  case (1 graph limit st)
  show ?case
  proof (cases "queue st \<noteq> [] \<and> int (length (recommendations st)) < limit")
    case False
    then have "bfs_loop graph limit st = st" by (subst bfs_loop.simps) auto
    with "1.prems" show ?thesis by simp
  next
    case True
    note pop = bfs_inv_pop [OF "1.prems"]
    show ?thesis
    proof (cases "map_of graph (hd (queue st))")
      case None
      with True have "bfs_loop graph limit st = bfs_loop graph limit (st\<lparr>queue := tl (queue st)\<rparr>)"
        by (subst bfs_loop.simps) simp
      with "1.IH"(1) [OF True None pop] show ?thesis by simp
    next
      case (Some node)
      have "hd (queue st) \<in> set (visited st)"
        using True "1.prems" by (cases "queue st") (auto simp: bfs_inv_def)
      then have "hd (queue st) = start \<or> reachable graph start (hd (queue st))"
        using "1.prems" by (simp add: bfs_inv_def)
      then have "\<forall>c \<in> set (connections node). reachable graph start (nodeId c)"
        using Some by (blast intro: reachable_next)
      with pop have "bfs_inv graph start
          (foldl (visit graph limit) (st\<lparr>queue := tl (queue st)\<rparr>) (connections node))"
        by (rule fold_visit_inv)
      from "1.IH"(2) [OF True Some this]
      have "bfs_inv graph start (bfs_loop graph limit
          (foldl (visit graph limit) (st\<lparr>queue := tl (queue st)\<rparr>) (connections node)))" .
      moreover from True Some have "bfs_loop graph limit st = bfs_loop graph limit
          (foldl (visit graph limit) (st\<lparr>queue := tl (queue st)\<rparr>) (connections node))"
        by (subst bfs_loop.simps) simp
      ultimately show ?thesis by simp
    qed
  qed
qed

lemma bfs_inv_init:
  "bfs_inv graph start \<lparr>queue = [start], visited = [start], recommendations = []\<rparr>"
  by (simp add: bfs_inv_def)

lemma bfs_result_inv:
  "distinct (map fst (bfs_result start graph limit))"
  "start \<notin> fst ` set (bfs_result start graph limit)"
  "\<forall>kn \<in> set (bfs_result start graph limit).
      map_of graph (fst kn) = Some (snd kn) \<and> reachable graph start (fst kn)"
proof -
  define st where "st = bfs_loop graph limit
      \<lparr>queue = [start], visited = [start], recommendations = []\<rparr>"
  have inv: "bfs_inv graph start st"
    unfolding st_def by (intro bfs_loop_inv bfs_inv_init)
  have res: "bfs_result start graph limit = recommendations st"
    by (simp add: bfs_result_def st_def)
  show "distinct (map fst (bfs_result start graph limit))"
    using inv by (simp add: res bfs_inv_def)
  show "start \<notin> fst ` set (bfs_result start graph limit)"
    using inv unfolding res bfs_inv_def by blast
  show "\<forall>kn \<in> set (bfs_result start graph limit).
      map_of graph (fst kn) = Some (snd kn) \<and> reachable graph start (fst kn)"
  proof
    fix kn assume kn: "kn \<in> set (bfs_result start graph limit)"
    then have "fst kn \<in> set (visited st) - {start}"
      using inv unfolding res bfs_inv_def by blast
    then have "reachable graph start (fst kn)"
      using inv unfolding bfs_inv_def by blast
    moreover have "map_of graph (fst kn) = Some (snd kn)"
      using inv kn unfolding res bfs_inv_def by blast
    ultimately show "map_of graph (fst kn) = Some (snd kn) \<and> reachable graph start (fst kn)"
      by simp
  qed
qed

lemma bfs_result_nonpositive:
  assumes "limit \<le> 0"
  shows "bfs_result start graph limit = []"
  using assms by (simp add: bfs_result_def bfs_loop.simps [of graph limit])

lemma bfs_result_no_connections:
  assumes "map_of graph start = Some n" and "connections n = []"
  shows "bfs_result start graph limit = []"
proof (cases "0 < limit")
  case False
  then show ?thesis by (simp add: bfs_result_nonpositive)
next
  case True
  have "bfs_loop graph limit \<lparr>queue = [start], visited = [start], recommendations = []\<rparr>
      = bfs_loop graph limit \<lparr>queue = [], visited = [start], recommendations = []\<rparr>"
    using True assms by (subst bfs_loop.simps) simp
  also have "\<dots> = \<lparr>queue = [], visited = [start], recommendations = []\<rparr>"
    by (subst bfs_loop.simps) simp
  finally show ?thesis by (simp add: bfs_result_def)
qed


lemma slice0_take: "0 \<le> n \<Longrightarrow> slice0 xs n = take (nat n) xs"
  by (simp add: slice0_def)

text \<open>
  C6. For every start id, graph and limit, \<open>getRecommendations\<close> returns at most
  \<open>limit\<close> nodes (none when the limit is not positive). The returned nodes are stored
  in the graph under pairwise distinct keys, none of which is the start id, and each
  key is reachable from the start node along connections of any type, so no node of
  another component is returned. The result is empty when the start id is not in the
  graph and when the start node has no connections. In a graph whose keys are the
  ids of its nodes, the keys are the ids of the returned nodes.
\<close>

theorem getRecommendations_sound:
  "int (length (getRecommendations start graph limit)) \<le> max 0 limit
   \<and> length (recommended_ids start graph limit) = length (getRecommendations start graph limit)
   \<and> distinct (recommended_ids start graph limit)
   \<and> start \<notin> set (recommended_ids start graph limit)
   \<and> (\<forall>i < length (getRecommendations start graph limit).
         map_of graph (recommended_ids start graph limit ! i)
           = Some (getRecommendations start graph limit ! i)
         \<and> reachable graph start (recommended_ids start graph limit ! i))
   \<and> (map_of graph start = None \<longrightarrow> getRecommendations start graph limit = [])
   \<and> (\<forall>n. map_of graph start = Some n \<and> connections n = []
         \<longrightarrow> getRecommendations start graph limit = [])
   \<and> ((\<forall>kn \<in> set graph. node_id (snd kn) = fst kn)
         \<longrightarrow> map node_id (getRecommendations start graph limit)
               = recommended_ids start graph limit)"
proof (cases "map_of graph start")
  case None
  then show ?thesis by (simp add: getRecommendations_def recommended_ids_def)
next
  case (Some node)
  define R where "R = bfs_result start graph limit"
  show ?thesis
  proof (cases "0 < limit")
    case False
    then have "R = []" by (simp add: R_def bfs_result_nonpositive)
    then have "getRecommendations start graph limit = []"
      and "recommended_ids start graph limit = []"
      using Some by (simp_all add: getRecommendations_def recommended_ids_def R_def slice0_def)
    then show ?thesis by simp
  next
    case True
    define k where "k = nat limit"
    have nodes: "getRecommendations start graph limit = take k (map snd R)"
      and ids: "recommended_ids start graph limit = take k (map fst R)"
      using Some True
      by (simp_all add: getRecommendations_def recommended_ids_def R_def slice0_take k_def)
    have dist: "distinct (map fst R)" and nostart: "start \<notin> fst ` set R"
      and each: "\<forall>kn \<in> set R. map_of graph (fst kn) = Some (snd kn)
                   \<and> reachable graph start (fst kn)"
      unfolding R_def by (rule bfs_result_inv)+
    have 1: "int (length (take k (map snd R))) \<le> max 0 limit"
      using True by (simp add: k_def)
    have 2: "length (take k (map fst R)) = length (take k (map snd R))" by simp
    have 3: "distinct (take k (map fst R))" using dist by (rule distinct_take)
    have 4: "start \<notin> set (take k (map fst R))"
    proof
      assume "start \<in> set (take k (map fst R))"
      then have "start \<in> set (map fst R)" by (rule in_set_takeD)
      with nostart show False by simp
    qed
    have 5: "\<forall>i < length (take k (map snd R)).
         map_of graph (take k (map fst R) ! i) = Some (take k (map snd R) ! i)
         \<and> reachable graph start (take k (map fst R) ! i)"
    proof (intro allI impI)
      fix i assume "i < length (take k (map snd R))"
      then have i: "i < k" "i < length R" by simp_all
      then have "R ! i \<in> set R" by simp
      with each have "map_of graph (fst (R ! i)) = Some (snd (R ! i))
          \<and> reachable graph start (fst (R ! i))" by blast
      with i show "map_of graph (take k (map fst R) ! i) = Some (take k (map snd R) ! i)
         \<and> reachable graph start (take k (map fst R) ! i)" by simp
    qed
    have 6: "\<forall>n. map_of graph start = Some n \<and> connections n = []
         \<longrightarrow> take k (map snd R) = []"
      by (auto simp: R_def bfs_result_no_connections)
    have 7: "map node_id (take k (map snd R)) = take k (map fst R)"
      if keyed: "\<forall>kn \<in> set graph. node_id (snd kn) = fst kn"
    proof (rule nth_equalityI)
      show "length (map node_id (take k (map snd R))) = length (take k (map fst R))" by simp
      fix i assume "i < length (map node_id (take k (map snd R)))"
      then have i: "i < length (take k (map snd R))" by simp
      with 5 have "map_of graph (take k (map fst R) ! i) = Some (take k (map snd R) ! i)"
        by blast
      then have "(take k (map fst R) ! i, take k (map snd R) ! i) \<in> set graph"
        by (rule map_of_SomeD)
      with keyed have "node_id (take k (map snd R) ! i) = take k (map fst R) ! i"
        by fastforce
      with i show "map node_id (take k (map snd R)) ! i = take k (map fst R) ! i"
        by simp
    qed
    show ?thesis
      unfolding nodes ids using Some 1 2 3 4 5 6 7 by simp
  qed
qed

theorem getRecommendations_sound_witness:
  "(0 < length (getRecommendations ''a'' g_ex 5)
     \<and> map_of g_ex (recommended_ids ''a'' g_ex 5 ! 0) = Some (getRecommendations ''a'' g_ex 5 ! 0)
     \<and> reachable g_ex ''a'' (recommended_ids ''a'' g_ex 5 ! 0))
   \<and> (map_of g_ex ''q'' = None \<and> getRecommendations ''q'' g_ex 5 = [])
   \<and> (map_of g_ex ''b'' = Some \<lparr>node_id = ''b'', node_title = ''Beta'', node_slug = ''beta'',
                                connections = []\<rparr>
      \<and> connections \<lparr>node_id = ''b'', node_title = ''Beta'', node_slug = ''beta'',
                      connections = []\<rparr> = []
      \<and> getRecommendations ''b'' g_ex 5 = [])
   \<and> (list_all (\<lambda>kn. node_id (snd kn) = fst kn) g_ex
      \<and> map node_id (getRecommendations ''a'' g_ex 5) = recommended_ids ''a'' g_ex 5)"
proof -
  have h1: "0 < length (getRecommendations ''a'' g_ex 5)" by code_simp
  have h2: "map_of g_ex ''q'' = None" by code_simp
  have h3: "map_of g_ex ''b'' = Some \<lparr>node_id = ''b'', node_title = ''Beta'',
      node_slug = ''beta'', connections = []\<rparr>" by code_simp
  have h4: "connections \<lparr>node_id = ''b'', node_title = ''Beta'', node_slug = ''beta'',
                      connections = []\<rparr> = []" by simp
  from getRecommendations_sound [of "''a''" g_ex 5] h1
  have a: "map_of g_ex (recommended_ids ''a'' g_ex 5 ! 0) = Some (getRecommendations ''a'' g_ex 5 ! 0)
     \<and> reachable g_ex ''a'' (recommended_ids ''a'' g_ex 5 ! 0)" by blast
  from getRecommendations_sound [of "''q''" g_ex 5] h2
  have q: "getRecommendations ''q'' g_ex 5 = []" by blast
  from getRecommendations_sound [of "''b''" g_ex 5] h3 h4
  have b: "getRecommendations ''b'' g_ex 5 = []" by blast
  have h5: "list_all (\<lambda>kn. node_id (snd kn) = fst kn) g_ex" by code_simp
  then have h5': "\<forall>kn \<in> set g_ex. node_id (snd kn) = fst kn"
    by (simp only: list_all_iff)
  from getRecommendations_sound [of "''a''" g_ex 5] h5'
  have k: "map node_id (getRecommendations ''a'' g_ex 5) = recommended_ids ''a'' g_ex 5"
    by blast
  from h1 h2 h3 h4 h5 a q b k show ?thesis by blast
qed

section \<open>Examples\<close>

text \<open>
  The corpus of the specification: \<open>Alpha\<close> refers to \<open>Beta\<close>, and \<open>Beta\<close> has no
  reference back.
\<close>

lemma buildKnowledgeGraph_example:
  "buildKnowledgeGraph
     [\<lparr>art_id = ''a'', art_title = ''Alpha'', art_slug = ''alpha'', art_description = None,
       art_content = ''See [[Beta]].''\<rparr>,
      \<lparr>art_id = ''b'', art_title = ''Beta'', art_slug = ''beta'', art_description = None,
       art_content = ''no refs''\<rparr>] 10
   = [(''a'', \<lparr>node_id = ''a'', node_title = ''Alpha'', node_slug = ''alpha'',
              connections = [\<lparr>nodeId = ''b'', conn_type = References\<rparr>]\<rparr>),
      (''b'', \<lparr>node_id = ''b'', node_title = ''Beta'', node_slug = ''beta'',
              connections = []\<rparr>)]"
  by code_simp

text \<open>Four sentences with chunk size 12 and overlap 4.\<close>

lemma chunkContent_example:
  "map (\<lambda>c. (content c, startChar (metadata c), endChar (metadata c)))
     (chunkContent ''Aaa bbb. Ccc ddd. Eee fff. Ggg.'' 12 4 ''art1'' ''T'')
   = [(''Aaa bbb.'', 0, 8), (''bbb. Ccc ddd.'', 4, 17), (''ddd. Eee fff.'', 13, 26),
      (''fff. Ggg.'', 22, 31)]"
  by code_simp

text \<open>Empty input gives empty collections and zero scores.\<close>

lemma empty_input_examples:
  "chunkContent [] 1024 128 ''art1'' ''T'' = []"
  "extractAtomicAnswers [] ''h'' = []"
  "extractKeywords [] 10 = []"
  "calculateSimilarity [] [] = 0"
  "calculateSimilarityScore engine [] [] = Inr 0"
  "rankChunksForQuery engine [] ''q'' 5 = Inr []"
  "buildKnowledgeGraph [] 10 = []"
  "getRecommendations ''a'' [] 5 = []"
  by code_simp+

text \<open>Two terms, matched as whole words in the content as it is written.\<close>

lemma calculateSimilarityScore_example:
  "calculateSimilarityScore engine ''cat Dog'' ''the cat sat. A cat! concat dog Dog dog_ dog''
   = Inr 2"
  by code_simp

end
